theory Spec2Isabelle
  imports Main "HOL-Library.Word" "HOL-Library.Sublist" "HOL-Library.Multiset"
begin

section \<open>The topic of nsqd (nsqd/topic.go)\<close>

text \<open>
  A Topic takes messages from producers (\<open>PutMessage\<close>), routes each one to a bounded
  in-memory Go channel or, when that is full, to a backend queue (\<open>Router\<close>), and copies
  every message it reads back from those two places to each registered Channel
  (\<open>MessagePump\<close>). The two loops run as goroutines; \<open>Close\<close> stops them through the
  notification bus.

  The model is an interleaving one. The state is a record of the fields of the Go struct
  together with the rest of the program state the methods act on (message and channel
  objects, the goroutines, the notification registry). Every method, and every pass
  through the body of a loop, is a function on that state which runs as one step:
  \<open>GetChannel\<close> and the fan-out hold the mutex, the loops touch shared state only through
  channel operations. \<open>Close\<close> takes no lock; it is one step here all the same, which
  leaves its interleavings with a concurrent \<open>GetChannel\<close> out of the model. What the
  scheduler and the outside world decide (which ready case a \<open>select\<close> takes, whether
  an I/O call fails) is an argument of the function.
\<close>

subsection \<open>Values, objects and Go channels\<close>

type_synonym bytes = "8 word list"

text \<open>A Go \<open>error\<close> is \<open>error option\<close>: \<open>None\<close> is \<open>nil\<close>.\<close>

type_synonym error = string

datatype panic = Makechan_size_out_of_range | Nil_pointer_dereference

text \<open>
  Modelled from the spec: \<open>nsq.Message\<close> is declared in package \<open>nsq\<close>, outside this
  file. The spec gives it an id, a body (both opaque byte sequences) and a timestamp, and
  says that every Message object has storage of its own for them. The field \<open>Id\<close> carries
  a suffix, the name being taken in HOL.
\<close>

record Message =
  Id_msg :: bytes
  Body :: bytes
  Timestamp :: int

text \<open>
  Go passes \<open>*nsq.Message\<close> and \<open>*Channel\<close> pointers around. Objects live in a store, a
  list indexed by address; a pointer is an address, and an address beyond the store is a
  pointer to no object (\<open>nil\<close>).
\<close>

type_synonym msg_ptr = nat
type_synonym chan_ptr = nat

definition deref :: "'a list \<Rightarrow> nat \<Rightarrow> 'a option" where
  "deref h p = (if p < length h then Some (h ! p) else None)"

definition alloc :: "'a list \<Rightarrow> 'a \<Rightarrow> nat \<times> 'a list" where
  "alloc h x = (length h, h @ [x])"

text \<open>
  A Go channel made by \<open>make(chan T, n)\<close>. \<open>buf\<close> holds the values sent and not yet taken
  by the receiving code, oldest first. A send goes through when the buffer has room, or
  when a receiver is parked on the channel (then the value is handed to it directly, also
  on a channel of capacity 0).
\<close>

record 'a gochan =
  buf :: "'a list"
  cap :: nat

definition make_chan :: "nat \<Rightarrow> 'a gochan" where
  "make_chan n = \<lparr>buf = [], cap = n\<rparr>"

text \<open>\<open>ch <- x\<close>; \<open>None\<close> when the send blocks.\<close>

definition chan_send :: "'a \<Rightarrow> 'a gochan \<Rightarrow> 'a gochan option" where
  "chan_send x ch = (if length (buf ch) < cap ch then Some (ch\<lparr>buf := buf ch @ [x]\<rparr>) else None)"

text \<open>\<open>select { case ch <- x: ... default: ... }\<close>; \<open>None\<close> is the default case.\<close>

definition chan_try_send :: "bool \<Rightarrow> 'a \<Rightarrow> 'a gochan \<Rightarrow> 'a gochan option" where
  "chan_try_send parked x ch =
     (if parked \<or> length (buf ch) < cap ch then Some (ch\<lparr>buf := buf ch @ [x]\<rparr>) else None)"

text \<open>\<open><-ch\<close>; \<open>None\<close> when there is nothing to receive.\<close>

definition chan_recv :: "'a gochan \<Rightarrow> ('a \<times> 'a gochan) option" where
  "chan_recv ch = (case buf ch of [] \<Rightarrow> None | x # xs \<Rightarrow> Some (x, ch\<lparr>buf := xs\<rparr>))"

subsection \<open>The collaborators of the Topic\<close>

text \<open>
  Modelled from the spec: \<open>Encode\<close> and \<open>DecodeMessage\<close> of package \<open>nsq\<close> are outside
  this file and the spec leaves the byte layout to them, so they are a parameter of the
  model.
\<close>

record codec =
  Encode :: "Message \<Rightarrow> error + bytes"
  DecodeMessage :: "bytes \<Rightarrow> error + Message"

text \<open>
  Modelled from the spec: \<open>nsq.NewMessage\<close> is outside this file. It makes a new Message
  object from an id and a body, with the time of creation as its timestamp.
\<close>

definition NewMessage :: "bytes \<Rightarrow> bytes \<Rightarrow> int \<Rightarrow> Message list \<Rightarrow> msg_ptr \<times> Message list" where
  "NewMessage mid body now h = alloc h \<lparr>Id_msg = mid, Body = body, Timestamp = now\<rparr>"

text \<open>
  Modelled from the spec: the backend queue (\<open>NewDiskQueue\<close>, \<open>Put\<close>, \<open>ReadChan\<close>,
  \<open>Close\<close>) is outside this file. It is an ordered sequence of byte records: \<open>Put\<close>
  appends one, the receive stream yields the appended records in their original order,
  \<open>Close\<close> closes it. \<open>Put\<close> and \<open>Close\<close> return an error when the storage fails; whether
  it does is given from outside, and a failed \<open>Put\<close> appends nothing.
\<close>

record BackendQueue =
  q_name :: string
  q_dataPath :: string
  q_maxBytesPerFile :: int
  records :: "bytes list"
  q_closed :: bool

definition NewDiskQueue :: "string \<Rightarrow> string \<Rightarrow> int \<Rightarrow> BackendQueue" where
  "NewDiskQueue nm path maxBytes =
     \<lparr>q_name = nm, q_dataPath = path, q_maxBytesPerFile = maxBytes, records = [], q_closed = False\<rparr>"

definition backend_Put :: "error option \<Rightarrow> bytes \<Rightarrow> BackendQueue \<Rightarrow> error option \<times> BackendQueue" where
  "backend_Put fails data q =
     (case fails of Some e \<Rightarrow> (Some e, q) | None \<Rightarrow> (None, q\<lparr>records := records q @ [data]\<rparr>))"

definition backend_ReadChan :: "BackendQueue \<Rightarrow> (bytes \<times> BackendQueue) option" where
  "backend_ReadChan q = (case records q of [] \<Rightarrow> None | r # rs \<Rightarrow> Some (r, q\<lparr>records := rs\<rparr>))"

definition backend_Close :: "error option \<Rightarrow> BackendQueue \<Rightarrow> error option \<times> BackendQueue" where
  "backend_Close fails q = (fails, q\<lparr>q_closed := True\<rparr>)"

text \<open>
  Modelled from the spec: \<open>Channel\<close> (\<open>NewChannel\<close>, \<open>PutMessage\<close>, \<open>Close\<close>) is outside
  this file. A Channel keeps what it was constructed with, takes the messages handed to
  it, and can be closed; whether its \<open>Close\<close> returns an error is given from outside.
\<close>

record Channel =
  topicName :: string
  channelName :: string
  c_memQueueSize :: int
  c_dataPath :: string
  c_maxBytesPerFile :: int
  inbox :: "msg_ptr list"
  c_closed :: bool

definition NewChannel :: "string \<Rightarrow> string \<Rightarrow> int \<Rightarrow> string \<Rightarrow> int \<Rightarrow> Channel" where
  "NewChannel tn cn qsize path maxBytes =
     \<lparr>topicName = tn, channelName = cn, c_memQueueSize = qsize, c_dataPath = path,
      c_maxBytesPerFile = maxBytes, inbox = [], c_closed = False\<rparr>"

definition Channel_PutMessage :: "msg_ptr \<Rightarrow> Channel \<Rightarrow> Channel" where
  "Channel_PutMessage msg c = c\<lparr>inbox := inbox c @ [msg]\<rparr>"

definition Channel_Close :: "error option \<Rightarrow> Channel \<Rightarrow> error option \<times> Channel" where
  "Channel_Close fails c = (fails, c\<lparr>c_closed := True\<rparr>)"

subsection \<open>The state\<close>

text \<open>A goroutine running one of the two loops.\<close>

datatype goroutine =
    Not_spawned
  | Spawned    \<comment> \<open>the \<open>go\<close> statement has run, the loop's \<open>notify.Observe\<close> not yet\<close>
  | Looping    \<comment> \<open>at the \<open>select\<close> of its loop\<close>
  | Returned

text \<open>The \<open>exitChan\<close> of the Router and the one of the MessagePump.\<close>

datatype exit_chan = Router_exitChan | Pump_exitChan

text \<open>What the code does to the outside, in the order it does it.\<close>

datatype effect =
    Go_Router
  | Go_MessagePump
  | Go_Channel_PutMessage chan_ptr msg_ptr
  | Notify_Post string
  | Backend_Put bytes
  | Backend_Close
  | Channel_Close_call chan_ptr
  | Log_new_channel string string
  | Log_channelMap string "(string \<times> chan_ptr) list"
  | Log_decode_failed error
  | Log_encode_failed error
  | Log_put_failed error
  | Log_closing string
  | Log_channel_close_failed string error

text \<open>
  The first nine fields are those of the struct \<open>Topic\<close> (the embedded mutex has no field:
  \<open>GetChannel\<close> and the fan-out, which hold it, are single steps). \<open>channelMap\<close> is an
  association list; Go leaves the order
  in which a map is ranged over open, and no theorem below depends on the order of the
  list. \<open>messagePumpStarter\<close> is the \<open>sync.Once\<close>: whether it has fired.
\<close>

record Topic =
  name :: string
  channelMap :: "(string \<times> chan_ptr) list"
  backend :: BackendQueue
  incomingMessageChan :: "msg_ptr gochan"
  memoryMsgChan :: "msg_ptr gochan"
  messagePumpStarter :: bool
  memQueueSize :: int
  dataPath :: string
  maxBytesPerFile :: int
  messages :: "Message list"    \<comment> \<open>the store of Message objects\<close>
  channels :: "Channel list"    \<comment> \<open>the store of Channel objects\<close>
  router :: goroutine
  pump :: goroutine
  observers :: "(string \<times> exit_chan) list"    \<comment> \<open>the registry of package \<open>notify\<close>\<close>
  tasks :: "(chan_ptr \<times> msg_ptr) list"    \<comment> \<open>\<open>go channel.PutMessage(m)\<close> spawned, not yet run\<close>
  trace :: "effect list"
  panicked :: "panic option"

definition emit :: "effect list \<Rightarrow> Topic \<Rightarrow> Topic" where
  "emit es t = t\<lparr>trace := trace t @ es\<rparr>"

definition topic_close :: "Topic \<Rightarrow> string" where
  "topic_close t = name t @ ''.topic_close''"

text \<open>
  Modelled from the spec: package \<open>notify\<close> is outside this file. \<open>Observe\<close> registers a
  receiver for an event and \<open>Ignore\<close> removes it; \<open>Post\<close> (below, after the loops) hands
  the event to every receiver registered for it.
\<close>

definition notify_Observe :: "string \<Rightarrow> exit_chan \<Rightarrow> Topic \<Rightarrow> Topic" where
  "notify_Observe ev r t = t\<lparr>observers := observers t @ [(ev, r)]\<rparr>"

definition notify_Ignore :: "string \<Rightarrow> exit_chan \<Rightarrow> Topic \<Rightarrow> Topic" where
  "notify_Ignore ev r t = t\<lparr>observers := removeAll (ev, r) (observers t)\<rparr>"

subsection \<open>NewTopic, GetChannel, PutMessage\<close>

text \<open>
  \<open>NewTopic\<close> (lines 24-37). \<open>make(chan *nsq.Message, memQueueSize)\<close> panics on a
  negative size (the upper limit that the run-time system puts on the size of a channel
  depends on the platform and is left out). The struct literal has no entry for
  \<open>maxBytesPerFile\<close>, so the field has the zero value of \<open>int64\<close>. The result is the
  state of a program that has built this one Topic and nothing else; the Router is
  spawned, \<open>new_topic\<close> is posted to a registry where nobody observes it.
\<close>

definition NewTopic :: "string \<Rightarrow> int \<Rightarrow> string \<Rightarrow> int \<Rightarrow> panic + Topic" where
  "NewTopic topicName' memQueueSize' dataPath' maxBytesPerFile' =
     (if memQueueSize' < 0 then Inl Makechan_size_out_of_range
      else Inr \<lparr>name = topicName',
                channelMap = [],
                backend = NewDiskQueue topicName' dataPath' maxBytesPerFile',
                incomingMessageChan = make_chan 5,
                memoryMsgChan = make_chan (nat memQueueSize'),
                messagePumpStarter = False,
                memQueueSize = memQueueSize',
                dataPath = dataPath',
                maxBytesPerFile = 0,
                messages = [], channels = [],
                router = Spawned, pump = Not_spawned,
                observers = [], tasks = [],
                trace = [Go_Router, Notify_Post ''new_topic''],
                panicked = None\<rparr>)"

text \<open>
  \<open>GetChannel\<close> (lines 42-55), under the write lock. A new Channel gets the next free
  address. \<open>messagePumpStarter.Do\<close> spawns the MessagePump unless it has fired before.
\<close>

definition GetChannel :: "string \<Rightarrow> Topic \<Rightarrow> chan_ptr \<times> Topic" where
  "GetChannel channelName' t =
     (let (channel, t1) =
            (case map_of (channelMap t) channelName' of
               Some c \<Rightarrow> (c, t)
             | None \<Rightarrow>
                 (let (c, h) = alloc (channels t)
                        (NewChannel (name t) channelName' (memQueueSize t) (dataPath t) (maxBytesPerFile t))
                  in (c, emit [Log_new_channel (name t) channelName']
                           (t\<lparr>channels := h, channelMap := channelMap t @ [(channelName', c)]\<rparr>))));
          t2 = (if messagePumpStarter t1 then t1
                else emit [Go_MessagePump] (t1\<lparr>messagePumpStarter := True, pump := Spawned\<rparr>))
      in (channel, t2))"

text \<open>
  \<open>PutMessage\<close> (lines 59-62): a blocking send on the ingest channel. \<open>None\<close>: the call
  blocks, and nothing has been enqueued.
\<close>

definition PutMessage :: "msg_ptr \<Rightarrow> Topic \<Rightarrow> Topic option" where
  "PutMessage msg t =
     (case chan_send msg (incomingMessageChan t) of
        None \<Rightarrow> None
      | Some c \<Rightarrow> Some (t\<lparr>incomingMessageChan := c\<rparr>))"

subsection \<open>MessagePump\<close>

text \<open>Lines 72-73: the goroutine registers its \<open>exitChan\<close> and enters the loop.\<close>

definition MessagePump_start :: "Topic \<Rightarrow> Topic" where
  "MessagePump_start t = (notify_Observe (topic_close t) Pump_exitChan t)\<lparr>pump := Looping\<rparr>"

text \<open>
  Lines 93-95, the body of the loop over the channel map: a new Message object from the
  id and the body of \<open>msg\<close>, the timestamp of \<open>msg\<close> stored into it, and a goroutine
  spawned that will hand it to the channel. \<open>None\<close>: \<open>msg\<close> points to no object, and
  reading its fields panics.
\<close>

definition copy_to :: "int \<Rightarrow> msg_ptr \<Rightarrow> chan_ptr \<Rightarrow> Topic \<Rightarrow> Topic option" where
  "copy_to now msg channel t =
     (case deref (messages t) msg of
        None \<Rightarrow> None
      | Some m \<Rightarrow>
          (let (chanMsg, h) = NewMessage (Id_msg m) (Body m) now (messages t);
               h' = h[chanMsg := (h ! chanMsg)\<lparr>Timestamp := Timestamp m\<rparr>]
           in Some (emit [Go_Channel_PutMessage channel chanMsg]
                      (t\<lparr>messages := h', tasks := tasks t @ [(channel, chanMsg)]\<rparr>))))"

text \<open>Lines 90-96, for the entries of the channel map that are still to be visited.\<close>

fun fan_out :: "int \<Rightarrow> msg_ptr \<Rightarrow> (string \<times> chan_ptr) list \<Rightarrow> Topic \<Rightarrow> Topic" where
  "fan_out now msg [] t = t"
| "fan_out now msg ((cn, channel) # rest) t =
     (case copy_to now msg channel t of
        None \<Rightarrow> t\<lparr>panicked := Some Nil_pointer_dereference\<rparr>
      | Some t' \<Rightarrow> fan_out now msg rest t')"

text \<open>Lines 88-97, under the read lock.\<close>

definition deliver :: "int \<Rightarrow> msg_ptr \<Rightarrow> Topic \<Rightarrow> Topic" where
  "deliver now msg t =
     fan_out now msg (channelMap t) (emit [Log_channelMap (name t) (channelMap t)] t)"

text \<open>The two cases of the \<open>select\<close> at line 75 that carry data.\<close>

datatype pump_case = From_memory | From_backend

text \<open>
  One pass through the loop (lines 75-97) in which the \<open>select\<close> takes the given case;
  \<open>None\<close> when that case is not ready. \<open>DecodeMessage\<close> returns a new Message object.
\<close>

definition MessagePump_iter :: "codec \<Rightarrow> pump_case \<Rightarrow> int \<Rightarrow> Topic \<Rightarrow> Topic option" where
  "MessagePump_iter cd c now t =
     (case c of
        From_memory \<Rightarrow>
          (case chan_recv (memoryMsgChan t) of
             None \<Rightarrow> None
           | Some (msg, ch) \<Rightarrow> Some (deliver now msg (t\<lparr>memoryMsgChan := ch\<rparr>)))
      | From_backend \<Rightarrow>
          (case backend_ReadChan (backend t) of
             None \<Rightarrow> None
           | Some (buf', q) \<Rightarrow>
               (case DecodeMessage cd buf' of
                  Inl e \<Rightarrow> Some (emit [Log_decode_failed e] (t\<lparr>backend := q\<rparr>))
                | Inr m \<Rightarrow>
                    (let (msg, h) = alloc (messages t) m
                     in Some (deliver now msg (t\<lparr>backend := q, messages := h\<rparr>))))))"

text \<open>Lines 83-85: the \<open>select\<close> takes the shutdown signal.\<close>

definition MessagePump_exit :: "Topic \<Rightarrow> Topic" where
  "MessagePump_exit t = (notify_Ignore (topic_close t) Pump_exitChan t)\<lparr>pump := Returned\<rparr>"

subsection \<open>Router\<close>

text \<open>Lines 106-107.\<close>

definition Router_start :: "Topic \<Rightarrow> Topic" where
  "Router_start t = (notify_Observe (topic_close t) Router_exitChan t)\<lparr>router := Looping\<rparr>"

text \<open>
  One pass through the loop in which the \<open>select\<close> takes a message from the ingest
  channel (lines 110-126); \<open>None\<close> when there is none. \<open>parked\<close>: the MessagePump is
  blocked in its \<open>select\<close>, waiting on the memory channel. \<open>put_fails\<close>: the error that
  \<open>backend.Put\<close> returns if it is called. \<open>msg.Encode()\<close> panics when \<open>msg\<close> points to
  no object.
\<close>

definition Router_iter :: "codec \<Rightarrow> bool \<Rightarrow> error option \<Rightarrow> Topic \<Rightarrow> Topic option" where
  "Router_iter cd parked put_fails t =
     (case chan_recv (incomingMessageChan t) of
        None \<Rightarrow> None
      | Some (msg, inc) \<Rightarrow>
          (let t1 = t\<lparr>incomingMessageChan := inc\<rparr> in
           case chan_try_send parked msg (memoryMsgChan t1) of
             Some mem \<Rightarrow> Some (t1\<lparr>memoryMsgChan := mem\<rparr>)
           | None \<Rightarrow>
               (case deref (messages t1) msg of
                  None \<Rightarrow> Some (t1\<lparr>panicked := Some Nil_pointer_dereference\<rparr>)
                | Some m \<Rightarrow>
                    (case Encode cd m of
                       Inl e \<Rightarrow> Some (emit [Log_encode_failed e] t1)
                     | Inr data \<Rightarrow>
                         (let (err, q) = backend_Put put_fails data (backend t1);
                              t2 = emit [Backend_Put data] (t1\<lparr>backend := q\<rparr>)
                          in case err of
                               Some e \<Rightarrow> Some (emit [Log_put_failed e] t2)
                             | None \<Rightarrow> Some t2)))))"

text \<open>Lines 127-129: the \<open>select\<close> takes the shutdown signal.\<close>

definition Router_exit :: "Topic \<Rightarrow> Topic" where
  "Router_exit t = (notify_Ignore (topic_close t) Router_exitChan t)\<lparr>router := Returned\<rparr>"

subsection \<open>Close\<close>

text \<open>
  Modelled from the spec: \<open>notify.Post\<close> broadcasts the event and thereby stops the
  loops: every receiver registered for the event at that moment is handed the signal
  (a loop's \<open>exitChan\<close> has no buffer, so handing it over is the loop's \<open>select\<close> taking
  the case of lines 83 or 127), and then \<open>Post\<close> returns.
\<close>

definition take_signal :: "exit_chan \<Rightarrow> Topic \<Rightarrow> Topic" where
  "take_signal r t = (case r of Router_exitChan \<Rightarrow> Router_exit t | Pump_exitChan \<Rightarrow> MessagePump_exit t)"

definition notify_Post :: "string \<Rightarrow> Topic \<Rightarrow> Topic" where
  "notify_Post ev t =
     fold take_signal (map snd (filter (\<lambda>(e, r). e = ev) (observers t))) (emit [Notify_Post ev] t)"

text \<open>
  Lines 142-146, the body of the loop over the channel map. \<open>close_fails c\<close> is the
  error that \<open>Close\<close> of the channel at address \<open>c\<close> returns. \<open>None\<close>: the pointer is to
  no Channel, and the call panics.
\<close>

definition close_channel :: "(chan_ptr \<Rightarrow> error option) \<Rightarrow> chan_ptr \<Rightarrow> Topic \<Rightarrow> Topic option" where
  "close_channel close_fails channel t =
     (case deref (channels t) channel of
        None \<Rightarrow> None
      | Some ch \<Rightarrow>
          (let (err, ch') = Channel_Close (close_fails channel) ch;
               t1 = emit [Channel_Close_call channel] (t\<lparr>channels := (channels t)[channel := ch']\<rparr>)
           in Some (case err of
                      Some e \<Rightarrow> emit [Log_channel_close_failed (channelName ch') e] t1
                    | None \<Rightarrow> t1)))"

text \<open>Lines 141-147, for the entries of the channel map that are still to be visited.\<close>

fun close_channels :: "(chan_ptr \<Rightarrow> error option) \<Rightarrow> (string \<times> chan_ptr) list \<Rightarrow> Topic \<Rightarrow> Topic" where
  "close_channels close_fails [] t = t"
| "close_channels close_fails ((cn, channel) # rest) t =
     (case close_channel close_fails channel t of
        None \<Rightarrow> t\<lparr>panicked := Some Nil_pointer_dereference\<rparr>
      | Some t' \<Rightarrow> close_channels close_fails rest t')"

text \<open>
  \<open>Close\<close> (lines 134-155). \<open>backend_fails\<close> is the error that \<open>backend.Close\<close>
  returns. The result is the returned error and the state.
\<close>

definition Close :: "(chan_ptr \<Rightarrow> error option) \<Rightarrow> error option \<Rightarrow> Topic \<Rightarrow> error option \<times> Topic" where
  "Close close_fails backend_fails t =
     (let t1 = emit [Log_closing (name t)] t;
          t2 = notify_Post (topic_close t1) t1;
          t3 = close_channels close_fails (channelMap t2) t2;
          (err, q) = backend_Close backend_fails (backend t3);
          t4 = emit [Backend_Close] (t3\<lparr>backend := q\<rparr>)
      in case err of Some e \<Rightarrow> (Some e, t4) | None \<Rightarrow> (None, t4))"

subsection \<open>The program around the Topic\<close>

text \<open>
  A goroutine spawned at line 95 runs: the channel at the address is handed the message
  (a pointer to no Channel cannot occur in a channel map built by \<open>GetChannel\<close>).
\<close>

definition run_task :: "nat \<Rightarrow> Topic \<Rightarrow> Topic" where
  "run_task i t =
     (let (channel, msg) = tasks t ! i in
      case deref (channels t) channel of
        None \<Rightarrow> t\<lparr>panicked := Some Nil_pointer_dereference\<rparr>
      | Some ch \<Rightarrow>
          t\<lparr>channels := (channels t)[channel := Channel_PutMessage msg ch],
            tasks := take i (tasks t) @ drop (Suc i) (tasks t)\<rparr>)"

text \<open>
  The atomic steps of a program that uses the Topic: a producer makes a message, the
  methods are called, the goroutines advance. A step carries what the scheduler and the
  outside world decide in it.
\<close>

datatype event =
    NewMessage_ev bytes bytes int
  | PutMessage_ev msg_ptr
  | GetChannel_ev string
  | Close_ev "chan_ptr \<Rightarrow> error option" "error option"
  | Router_start_ev
  | Router_ev bool "error option"
  | Pump_start_ev
  | Pump_ev pump_case int
  | Task_ev nat

text \<open>
  \<open>None\<close>: the step cannot be taken in this state (the call blocks, the goroutine is not
  at that point, the process has panicked). Producers submit messages they have made,
  not \<open>nil\<close>. The Router can find the MessagePump parked on the memory channel only when
  the pump is in its loop and has taken all that was sent.
\<close>

definition step :: "codec \<Rightarrow> event \<Rightarrow> Topic \<Rightarrow> Topic option" where
  "step cd ev t =
     (if panicked t \<noteq> None then None
      else case ev of
        NewMessage_ev mid body now \<Rightarrow> Some (t\<lparr>messages := snd (NewMessage mid body now (messages t))\<rparr>)
      | PutMessage_ev msg \<Rightarrow> if msg < length (messages t) then PutMessage msg t else None
      | GetChannel_ev cn \<Rightarrow> Some (snd (GetChannel cn t))
      | Close_ev close_fails backend_fails \<Rightarrow> Some (snd (Close close_fails backend_fails t))
      | Router_start_ev \<Rightarrow> if router t = Spawned then Some (Router_start t) else None
      | Router_ev parked put_fails \<Rightarrow>
          if router t = Looping \<and> (\<not> parked \<or> pump t = Looping \<and> buf (memoryMsgChan t) = [])
          then Router_iter cd parked put_fails t else None
      | Pump_start_ev \<Rightarrow> if pump t = Spawned then Some (MessagePump_start t) else None
      | Pump_ev c now \<Rightarrow> if pump t = Looping then MessagePump_iter cd c now t else None
      | Task_ev i \<Rightarrow> if i < length (tasks t) then Some (run_task i t) else None)"

fun run :: "codec \<Rightarrow> event list \<Rightarrow> Topic \<Rightarrow> Topic option" where
  "run cd [] t = Some t"
| "run cd (ev # evs) t = (case step cd ev t of None \<Rightarrow> None | Some t' \<Rightarrow> run cd evs t')"

text \<open>The messages that the goroutines spawned at line 95 carry to a channel, in the order of spawning.\<close>

fun sent_to :: "chan_ptr \<Rightarrow> effect list \<Rightarrow> msg_ptr list" where
  "sent_to c [] = []"
| "sent_to c (Go_Channel_PutMessage c' p # es) = (if c' = c then p # sent_to c es else sent_to c es)"
| "sent_to c (e # es) = sent_to c es"

text \<open>The messages passed to \<open>PutMessage\<close> in a sequence of steps, in order.\<close>

fun puts :: "event list \<Rightarrow> msg_ptr list" where
  "puts [] = []"
| "puts (PutMessage_ev p # evs) = p # puts evs"
| "puts (ev # evs) = puts evs"

text \<open>What the holder of a pointer to an object can do to it: change it in place.\<close>

definition mutate :: "nat \<Rightarrow> ('a \<Rightarrow> 'a) \<Rightarrow> 'a list \<Rightarrow> 'a list" where
  "mutate p f h = h[p := f (h ! p)]"

subsection \<open>A codec and a topic to evaluate the model on\<close>

text \<open>
  An instance of the codec parameter for the examples below: one byte of timestamp, one
  byte with the length of the id, the id, the body. It stands for the layout of package
  \<open>nsq\<close> only in that it decodes what it encodes.
\<close>

definition demo_Encode :: "Message \<Rightarrow> error + bytes" where
  "demo_Encode m =
     (if 0 \<le> Timestamp m \<and> Timestamp m < 256 \<and> length (Id_msg m) < 256
      then Inr (word_of_int (Timestamp m) # word_of_nat (length (Id_msg m)) # Id_msg m @ Body m)
      else Inl ''message does not fit'')"

definition demo_Decode :: "bytes \<Rightarrow> error + Message" where
  "demo_Decode bs =
     (case bs of
        ts # n # rest \<Rightarrow>
          (if unat n \<le> length rest
           then Inr \<lparr>Id_msg = take (unat n) rest, Body = drop (unat n) rest, Timestamp = uint ts\<rparr>
           else Inl ''short record'')
      | _ \<Rightarrow> Inl ''short record'')"

definition demo_codec :: codec where
  "demo_codec = \<lparr>Encode = demo_Encode, DecodeMessage = demo_Decode\<rparr>"

text \<open>The topic of the scenario in the spec: \<open>orders\<close>, with a memory capacity of 2.\<close>

definition orders :: Topic where
  "orders = projr (NewTopic ''orders'' 2 ''/data'' 1024)"

text \<open>Three messages made, the first one submitted and waiting in the ingest channel.\<close>

definition orders_one :: Topic where
  "orders_one = the (run demo_codec
     [NewMessage_ev [1] [10] 1, NewMessage_ev [2] [20] 2, NewMessage_ev [3] [30] 3,
      Router_start_ev, PutMessage_ev 0] orders)"

text \<open>Two messages routed to memory, which is full now; the third waits in the ingest channel.\<close>

definition orders_full :: Topic where
  "orders_full = the (run demo_codec
     [Router_ev False None, PutMessage_ev 1, Router_ev False None, PutMessage_ev 2] orders_one)"


subsection \<open>Auxiliary notions for the statements\<close>

text \<open>
  What closing the channels of a channel map must leave in the trace: for every entry a
  call of the channel's \<open>Close\<close> and, when that returns an error, the log line of
  line 145.
\<close>

definition close_effects :: "(chan_ptr \<Rightarrow> error option) \<Rightarrow> Channel list \<Rightarrow> (string \<times> chan_ptr) list \<Rightarrow> effect list" where
  "close_effects close_fails h cs =
     concat (map (\<lambda>(cn, c). Channel_Close_call c #
                    (case close_fails c of
                       Some e \<Rightarrow> [Log_channel_close_failed (channelName (h ! c)) e]
                     | None \<Rightarrow> [])) cs)"

text \<open>
  The goroutines that a fan-out over a channel map spawns when the next free address in
  the message store is \<open>l\<close>: one for every entry, each with a new address.
\<close>

definition spawned :: "(string \<times> chan_ptr) list \<Rightarrow> nat \<Rightarrow> (chan_ptr \<times> msg_ptr) list" where
  "spawned cs l = zip (map snd cs) [l ..< l + length cs]"

text \<open>
  The goroutines of line 95 and the channels. \<open>pending ch ts\<close>: the messages that the
  goroutines \<open>ts\<close>, spawned and not yet run, will hand to the channel at \<open>ch\<close>.
  \<open>received ch t\<close>: the messages that the channel at \<open>ch\<close> has been handed. \<open>tasks_ok\<close>: the
  pending goroutines are for channels that exist.
\<close>

definition pending :: "chan_ptr \<Rightarrow> (chan_ptr \<times> msg_ptr) list \<Rightarrow> msg_ptr list" where
  "pending ch ts = map snd (filter (\<lambda>(c, p). c = ch) ts)"

definition is_Task :: "event \<Rightarrow> bool" where
  "is_Task ev = (case ev of Task_ev i \<Rightarrow> True | _ \<Rightarrow> False)"

definition received :: "chan_ptr \<Rightarrow> Topic \<Rightarrow> msg_ptr list" where
  "received ch t = inbox (channels t ! ch)"

definition tasks_ok :: "Topic \<Rightarrow> bool" where
  "tasks_ok t \<longleftrightarrow> (\<forall>(ch, p) \<in> set (tasks t). ch < length (channels t))"

text \<open>Two channels \<open>a\<close> and \<open>b\<close> subscribed to the full topic, the pump in its loop.\<close>

definition orders_ab :: Topic where
  "orders_ab = the (run demo_codec [GetChannel_ev ''a'', GetChannel_ev ''b'', Pump_start_ev] orders_full)"

text \<open>
  The third message routed to the backend, and a fourth one submitted whose timestamp the
  codec of the examples cannot encode.
\<close>

definition orders_bad :: Topic where
  "orders_bad = the (run demo_codec
     [Router_ev False None, NewMessage_ev [9] [90] 300, PutMessage_ev 3] orders_full)"

text \<open>A record on disk that does not decode.\<close>

definition orders_corrupt :: Topic where
  "orders_corrupt = orders_ab\<lparr>backend := (backend orders_ab)\<lparr>records := [[7]]\<rparr>\<rparr>"

text \<open>
  Notions for the statements about whole runs. \<open>maxBytes_inv\<close>, \<open>loops_inv\<close>: what holds
  of every state that a run from \<open>NewTopic\<close> reaches (the constructor's \<open>maxBytesPerFile\<close> is
  in the backend only; a loop is in its \<open>select\<close> exactly when its \<open>exitChan\<close> is
  registered, the pump has been spawned only through the \<open>sync.Once\<close>, the ingest channel
  has capacity 5). \<open>router_gone\<close>, \<open>pump_gone\<close>: how the queues can differ between two
  states when the Router, or the pump, takes no step in between.
\<close>

definition is_GetChannel :: "event \<Rightarrow> bool" where
  "is_GetChannel ev = (case ev of GetChannel_ev cn \<Rightarrow> True | _ \<Rightarrow> False)"

definition maxBytes_inv :: "int \<Rightarrow> Topic \<Rightarrow> bool" where
  "maxBytes_inv mb t \<longleftrightarrow>
     maxBytesPerFile t = 0 \<and> q_maxBytesPerFile (backend t) = mb \<and>
     (\<forall>ch \<in> set (channels t). c_maxBytesPerFile ch = 0)"

definition loops_inv :: "Topic \<Rightarrow> bool" where
  "loops_inv t \<longleftrightarrow>
     (router t = Looping \<longleftrightarrow> (topic_close t, Router_exitChan) \<in> set (observers t)) \<and>
     (pump t = Looping \<longleftrightarrow> (topic_close t, Pump_exitChan) \<in> set (observers t)) \<and>
     (pump t \<noteq> Not_spawned \<longrightarrow> messagePumpStarter t) \<and>
     cap (incomingMessageChan t) = 5"

definition router_gone :: "Topic \<Rightarrow> Topic \<Rightarrow> bool" where
  "router_gone t t' \<longleftrightarrow>
     prefix (buf (incomingMessageChan t)) (buf (incomingMessageChan t')) \<and>
     suffix (buf (memoryMsgChan t')) (buf (memoryMsgChan t)) \<and>
     suffix (records (backend t')) (records (backend t))"

definition pump_gone :: "Topic \<Rightarrow> Topic \<Rightarrow> bool" where
  "pump_gone t t' \<longleftrightarrow>
     prefix (buf (memoryMsgChan t)) (buf (memoryMsgChan t')) \<and>
     prefix (records (backend t)) (records (backend t')) \<and>
     (\<forall>c. sent_to c (trace t') = sent_to c (trace t))"

text \<open>The steps that lead from \<open>orders\<close> to \<open>orders_ab\<close>.\<close>

definition orders_ab_events :: "event list" where
  "orders_ab_events =
     [NewMessage_ev [1] [10] 1, NewMessage_ev [2] [20] 2, NewMessage_ev [3] [30] 3,
      Router_start_ev, PutMessage_ev 0, Router_ev False None, PutMessage_ev 1,
      Router_ev False None, PutMessage_ev 2,
      GetChannel_ev ''a'', GetChannel_ev ''b'', Pump_start_ev]"

text \<open>\<open>orders_ab\<close> closed, and then four more messages submitted.\<close>

definition orders_closed :: Topic where
  "orders_closed = the (run demo_codec [Close_ev (\<lambda>c. None) None] orders_ab)"

definition orders_closed_full :: Topic where
  "orders_closed_full = the (run demo_codec
     [PutMessage_ev 0, PutMessage_ev 1, PutMessage_ev 2, PutMessage_ev 0] orders_closed)"

section \<open>Properties\<close>

lemmas eval_defs =
  orders_def NewTopic_def NewDiskQueue_def make_chan_def step_def PutMessage_def chan_send_def
  Router_start_def notify_Observe_def topic_close_def Router_iter_def chan_recv_def
  chan_try_send_def deref_def NewMessage_def alloc_def demo_codec_def demo_Encode_def
  demo_Decode_def backend_Put_def emit_def GetChannel_def NewChannel_def MessagePump_start_def
  MessagePump_iter_def backend_ReadChan_def deliver_def copy_to_def Let_def

subsection \<open>The example states, evaluated\<close>

lemma orders_eval:
  "orders =
     \<lparr>name = ''orders'', channelMap = [],
      backend = \<lparr>q_name = ''orders'', q_dataPath = ''/data'', q_maxBytesPerFile = 1024,
                  records = [], q_closed = False\<rparr>,
      incomingMessageChan = \<lparr>buf = [], cap = 5\<rparr>, memoryMsgChan = \<lparr>buf = [], cap = 2\<rparr>,
      messagePumpStarter = False, memQueueSize = 2, dataPath = ''/data'', maxBytesPerFile = 0,
      messages = [], channels = [], router = Spawned, pump = Not_spawned, observers = [],
      tasks = [], trace = [Go_Router, Notify_Post ''new_topic''], panicked = None\<rparr>"
  by (simp add: orders_def NewTopic_def NewDiskQueue_def make_chan_def)

lemma orders_one_eval:
  "orders_one =
     \<lparr>name = ''orders'', channelMap = [],
      backend = \<lparr>q_name = ''orders'', q_dataPath = ''/data'', q_maxBytesPerFile = 1024,
                  records = [], q_closed = False\<rparr>,
      incomingMessageChan = \<lparr>buf = [0], cap = 5\<rparr>, memoryMsgChan = \<lparr>buf = [], cap = 2\<rparr>,
      messagePumpStarter = False, memQueueSize = 2, dataPath = ''/data'', maxBytesPerFile = 0,
      messages = [\<lparr>Id_msg = [1], Body = [10], Timestamp = 1\<rparr>,
                  \<lparr>Id_msg = [2], Body = [20], Timestamp = 2\<rparr>,
                  \<lparr>Id_msg = [3], Body = [30], Timestamp = 3\<rparr>],
      channels = [], router = Looping, pump = Not_spawned,
      observers = [(''orders.topic_close'', Router_exitChan)],
      tasks = [], trace = [Go_Router, Notify_Post ''new_topic''], panicked = None\<rparr>"
  by (simp add: orders_one_def orders_eval step_def NewMessage_def alloc_def Router_start_def
        notify_Observe_def topic_close_def PutMessage_def chan_send_def)

lemma orders_full_eval:
  "orders_full =
     \<lparr>name = ''orders'', channelMap = [],
      backend = \<lparr>q_name = ''orders'', q_dataPath = ''/data'', q_maxBytesPerFile = 1024,
                  records = [], q_closed = False\<rparr>,
      incomingMessageChan = \<lparr>buf = [2], cap = 5\<rparr>, memoryMsgChan = \<lparr>buf = [0, 1], cap = 2\<rparr>,
      messagePumpStarter = False, memQueueSize = 2, dataPath = ''/data'', maxBytesPerFile = 0,
      messages = [\<lparr>Id_msg = [1], Body = [10], Timestamp = 1\<rparr>,
                  \<lparr>Id_msg = [2], Body = [20], Timestamp = 2\<rparr>,
                  \<lparr>Id_msg = [3], Body = [30], Timestamp = 3\<rparr>],
      channels = [], router = Looping, pump = Not_spawned,
      observers = [(''orders.topic_close'', Router_exitChan)],
      tasks = [], trace = [Go_Router, Notify_Post ''new_topic''], panicked = None\<rparr>"
  by (simp add: orders_full_def orders_one_eval step_def Router_iter_def chan_recv_def
        chan_try_send_def PutMessage_def chan_send_def)

lemma orders_ab_eval:
  "orders_ab =
     \<lparr>name = ''orders'', channelMap = [(''a'', 0), (''b'', 1)],
      backend = \<lparr>q_name = ''orders'', q_dataPath = ''/data'', q_maxBytesPerFile = 1024,
                  records = [], q_closed = False\<rparr>,
      incomingMessageChan = \<lparr>buf = [2], cap = 5\<rparr>, memoryMsgChan = \<lparr>buf = [0, 1], cap = 2\<rparr>,
      messagePumpStarter = True, memQueueSize = 2, dataPath = ''/data'', maxBytesPerFile = 0,
      messages = [\<lparr>Id_msg = [1], Body = [10], Timestamp = 1\<rparr>,
                  \<lparr>Id_msg = [2], Body = [20], Timestamp = 2\<rparr>,
                  \<lparr>Id_msg = [3], Body = [30], Timestamp = 3\<rparr>],
      channels = [\<lparr>topicName = ''orders'', channelName = ''a'', c_memQueueSize = 2,
                    c_dataPath = ''/data'', c_maxBytesPerFile = 0, inbox = [], c_closed = False\<rparr>,
                  \<lparr>topicName = ''orders'', channelName = ''b'', c_memQueueSize = 2,
                    c_dataPath = ''/data'', c_maxBytesPerFile = 0, inbox = [], c_closed = False\<rparr>],
      router = Looping, pump = Looping,
      observers = [(''orders.topic_close'', Router_exitChan), (''orders.topic_close'', Pump_exitChan)],
      tasks = [],
      trace = [Go_Router, Notify_Post ''new_topic'', Log_new_channel ''orders'' ''a'',
               Go_MessagePump, Log_new_channel ''orders'' ''b''],
      panicked = None\<rparr>"
  by (simp add: orders_ab_def orders_full_eval step_def GetChannel_def NewChannel_def alloc_def
        emit_def MessagePump_start_def notify_Observe_def topic_close_def Let_def)

lemma orders_bad_eval:
  "orders_bad =
     \<lparr>name = ''orders'', channelMap = [],
      backend = \<lparr>q_name = ''orders'', q_dataPath = ''/data'', q_maxBytesPerFile = 1024,
                  records = [[3, 1, 3, 30]], q_closed = False\<rparr>,
      incomingMessageChan = \<lparr>buf = [3], cap = 5\<rparr>, memoryMsgChan = \<lparr>buf = [0, 1], cap = 2\<rparr>,
      messagePumpStarter = False, memQueueSize = 2, dataPath = ''/data'', maxBytesPerFile = 0,
      messages = [\<lparr>Id_msg = [1], Body = [10], Timestamp = 1\<rparr>,
                  \<lparr>Id_msg = [2], Body = [20], Timestamp = 2\<rparr>,
                  \<lparr>Id_msg = [3], Body = [30], Timestamp = 3\<rparr>,
                  \<lparr>Id_msg = [9], Body = [90], Timestamp = 300\<rparr>],
      channels = [], router = Looping, pump = Not_spawned,
      observers = [(''orders.topic_close'', Router_exitChan)],
      tasks = [], trace = [Go_Router, Notify_Post ''new_topic'', Backend_Put [3, 1, 3, 30]],
      panicked = None\<rparr>"
  by (simp add: orders_bad_def orders_full_eval step_def Router_iter_def chan_recv_def
        chan_try_send_def deref_def demo_codec_def demo_Encode_def backend_Put_def emit_def
        NewMessage_def alloc_def PutMessage_def chan_send_def Let_def)

lemma NewTopic_orders: "NewTopic ''orders'' 2 ''/data'' 1024 = Inr orders"
  by (simp add: orders_def NewTopic_def)

lemma orders_ab_reached: "run demo_codec orders_ab_events orders = Some orders_ab"
  by (simp add: orders_ab_events_def orders_ab_eval orders_eval step_def NewMessage_def alloc_def
        Router_start_def notify_Observe_def topic_close_def PutMessage_def chan_send_def
        Router_iter_def chan_recv_def chan_try_send_def GetChannel_def NewChannel_def emit_def
        MessagePump_start_def Let_def)

lemma orders_closed_Close: "orders_closed = snd (Close (\<lambda>c. None) None orders_ab)"
  by (simp add: orders_closed_def step_def orders_ab_eval)

lemma orders_closed_eval:
  "orders_closed =
     \<lparr>name = ''orders'', channelMap = [(''a'', 0), (''b'', 1)],
      backend = \<lparr>q_name = ''orders'', q_dataPath = ''/data'', q_maxBytesPerFile = 1024,
                  records = [], q_closed = True\<rparr>,
      incomingMessageChan = \<lparr>buf = [2], cap = 5\<rparr>, memoryMsgChan = \<lparr>buf = [0, 1], cap = 2\<rparr>,
      messagePumpStarter = True, memQueueSize = 2, dataPath = ''/data'', maxBytesPerFile = 0,
      messages = [\<lparr>Id_msg = [1], Body = [10], Timestamp = 1\<rparr>,
                  \<lparr>Id_msg = [2], Body = [20], Timestamp = 2\<rparr>,
                  \<lparr>Id_msg = [3], Body = [30], Timestamp = 3\<rparr>],
      channels = [\<lparr>topicName = ''orders'', channelName = ''a'', c_memQueueSize = 2,
                    c_dataPath = ''/data'', c_maxBytesPerFile = 0, inbox = [], c_closed = True\<rparr>,
                  \<lparr>topicName = ''orders'', channelName = ''b'', c_memQueueSize = 2,
                    c_dataPath = ''/data'', c_maxBytesPerFile = 0, inbox = [], c_closed = True\<rparr>],
      router = Returned, pump = Returned, observers = [], tasks = [],
      trace = [Go_Router, Notify_Post ''new_topic'', Log_new_channel ''orders'' ''a'',
               Go_MessagePump, Log_new_channel ''orders'' ''b'', Log_closing ''orders'',
               Notify_Post ''orders.topic_close'', Channel_Close_call 0, Channel_Close_call 1,
               Backend_Close],
      panicked = None\<rparr>"
  by (simp add: orders_closed_Close orders_ab_eval Close_def notify_Post_def take_signal_def
        Router_exit_def MessagePump_exit_def notify_Ignore_def topic_close_def emit_def
        close_channel_def Channel_Close_def deref_def backend_Close_def Let_def)

lemma Close_orders_ab: "snd (Close (\<lambda>c. None) None orders_ab) = orders_closed"
  by (simp add: orders_closed_Close)

lemma orders_ab_fields:
  "router orders_ab = Looping" "pump orders_ab = Looping"
  "buf (memoryMsgChan orders_ab) = [0, 1]" "records (backend orders_ab) = []"
  by (simp_all add: orders_ab_eval)

lemma orders_closed_full_reached:
  "run demo_codec [PutMessage_ev 0, PutMessage_ev 1, PutMessage_ev 2, PutMessage_ev 0]
     orders_closed = Some orders_closed_full"
  by (simp add: orders_closed_full_def orders_closed_eval step_def PutMessage_def chan_send_def)

lemma orders_closed_full_eval:
  "orders_closed_full =
     orders_closed\<lparr>incomingMessageChan := \<lparr>buf = [2, 0, 1, 2, 0], cap = 5\<rparr>\<rparr>"
  by (simp add: orders_closed_full_def orders_closed_eval step_def PutMessage_def chan_send_def)

subsection \<open>Routing\<close>

text \<open>
  C1. A pass of the Router that takes \<open>msg\<close> from the ingest channel first tries the
  non-blocking send on the memory channel. When the send can go through (the buffer has
  room, or the pump is parked on the channel), \<open>msg\<close> is appended there and nothing else
  changes, whatever \<open>Encode\<close> and \<open>Put\<close> would do: memory is preferred. Only when it
  cannot, the message is encoded and the record appended to the backend queue, the memory
  channel staying as it is. In no case do both the memory channel and the backend queue
  change.
\<close>

theorem Router_iter_exclusive:
  assumes "buf (incomingMessageChan t) = msg # rest"
  shows "(parked \<or> length (buf (memoryMsgChan t)) < cap (memoryMsgChan t) \<longrightarrow>
            Router_iter cd parked put_fails t =
              Some (t\<lparr>incomingMessageChan := (incomingMessageChan t)\<lparr>buf := rest\<rparr>,
                      memoryMsgChan := (memoryMsgChan t)\<lparr>buf := buf (memoryMsgChan t) @ [msg]\<rparr>\<rparr>))
       \<and> (\<not> parked \<and> cap (memoryMsgChan t) \<le> length (buf (memoryMsgChan t)) \<and>
            deref (messages t) msg = Some m \<and> Encode cd m = Inr data \<longrightarrow>
            Router_iter cd parked None t =
              Some (emit [Backend_Put data]
                     (t\<lparr>incomingMessageChan := (incomingMessageChan t)\<lparr>buf := rest\<rparr>,
                        backend := (backend t)\<lparr>records := records (backend t) @ [data]\<rparr>\<rparr>)))
       \<and> (\<forall>t'. Router_iter cd parked put_fails t = Some t' \<longrightarrow>
              memoryMsgChan t' = memoryMsgChan t \<or> backend t' = backend t)"
  using assms
  by (auto simp: Router_iter_def chan_recv_def chan_try_send_def backend_Put_def emit_def Let_def
           split: option.splits sum.splits list.splits)

theorem Router_iter_exclusive_witness:
  "buf (incomingMessageChan orders_one) = [0]
   \<and> length (buf (memoryMsgChan orders_one)) < cap (memoryMsgChan orders_one)
   \<and> buf (memoryMsgChan (the (Router_iter demo_codec False None orders_one))) = [0]
   \<and> records (backend (the (Router_iter demo_codec False None orders_one))) = []
   \<and> buf (incomingMessageChan orders_full) = [2]
   \<and> cap (memoryMsgChan orders_full) \<le> length (buf (memoryMsgChan orders_full))
   \<and> deref (messages orders_full) 2 = Some \<lparr>Id_msg = [3], Body = [30], Timestamp = 3\<rparr>
   \<and> Encode demo_codec \<lparr>Id_msg = [3], Body = [30], Timestamp = 3\<rparr> = Inr [3, 1, 3, 30]
   \<and> records (backend (the (Router_iter demo_codec False None orders_full))) = [[3, 1, 3, 30]]
   \<and> buf (memoryMsgChan (the (Router_iter demo_codec False None orders_full))) = [0, 1]"
  using Router_iter_exclusive [of orders_one 0 "[]" False demo_codec None]
        Router_iter_exclusive [of orders_full 2 "[]" False demo_codec None
          "\<lparr>Id_msg = [3], Body = [30], Timestamp = 3\<rparr>" "[3, 1, 3, 30]"]
  by (simp add: orders_full_eval orders_one_eval eval_defs)

subsection \<open>What the parts of a step leave unchanged\<close>

lemma emit_emit [simp]: "emit es (emit es' t) = emit (es' @ es) t"
  by (simp add: emit_def)

lemma emit_fields [simp]:
  "name (emit es t) = name t" "channelMap (emit es t) = channelMap t" "backend (emit es t) = backend t"
  "incomingMessageChan (emit es t) = incomingMessageChan t" "memoryMsgChan (emit es t) = memoryMsgChan t"
  "messagePumpStarter (emit es t) = messagePumpStarter t" "memQueueSize (emit es t) = memQueueSize t"
  "dataPath (emit es t) = dataPath t" "maxBytesPerFile (emit es t) = maxBytesPerFile t"
  "messages (emit es t) = messages t" "channels (emit es t) = channels t" "router (emit es t) = router t"
  "pump (emit es t) = pump t" "observers (emit es t) = observers t" "tasks (emit es t) = tasks t"
  "trace (emit es t) = trace t @ es" "panicked (emit es t) = panicked t"
  by (simp_all add: emit_def)

lemma take_signal_fields [simp]:
  "name (take_signal r t) = name t" "channelMap (take_signal r t) = channelMap t"
  "backend (take_signal r t) = backend t"
  "incomingMessageChan (take_signal r t) = incomingMessageChan t"
  "memoryMsgChan (take_signal r t) = memoryMsgChan t"
  "messagePumpStarter (take_signal r t) = messagePumpStarter t"
  "memQueueSize (take_signal r t) = memQueueSize t" "dataPath (take_signal r t) = dataPath t"
  "maxBytesPerFile (take_signal r t) = maxBytesPerFile t" "messages (take_signal r t) = messages t"
  "channels (take_signal r t) = channels t" "tasks (take_signal r t) = tasks t"
  "trace (take_signal r t) = trace t" "panicked (take_signal r t) = panicked t"
  by (simp_all add: take_signal_def Router_exit_def MessagePump_exit_def notify_Ignore_def split: exit_chan.splits)


lemma fold_take_signal_frame:
  "(\<And>r t. f (take_signal r t) = f t) \<Longrightarrow> f (fold take_signal rs t) = f t"
  by (induction rs arbitrary: t) simp_all

lemma notify_Post_fields [simp]:
  "name (notify_Post ev t) = name t" "channelMap (notify_Post ev t) = channelMap t"
  "backend (notify_Post ev t) = backend t"
  "incomingMessageChan (notify_Post ev t) = incomingMessageChan t"
  "memoryMsgChan (notify_Post ev t) = memoryMsgChan t"
  "messagePumpStarter (notify_Post ev t) = messagePumpStarter t"
  "memQueueSize (notify_Post ev t) = memQueueSize t" "dataPath (notify_Post ev t) = dataPath t"
  "maxBytesPerFile (notify_Post ev t) = maxBytesPerFile t" "messages (notify_Post ev t) = messages t"
  "channels (notify_Post ev t) = channels t" "tasks (notify_Post ev t) = tasks t"
  "trace (notify_Post ev t) = trace t @ [Notify_Post ev]" "panicked (notify_Post ev t) = panicked t"
  unfolding notify_Post_def
  by (simp_all add: fold_take_signal_frame)

lemma close_channel_frame:
  assumes "\<And>t h. f (t\<lparr>channels := h\<rparr>) = f t" "\<And>t tr. f (t\<lparr>trace := tr\<rparr>) = f t"
    and "close_channel cf c t = Some t'"
  shows "f t' = f t"
  using assms(3)
  by (auto simp: close_channel_def assms(1,2) emit_def Channel_Close_def Let_def split: option.splits)

lemma close_channels_frame:
  assumes "\<And>t h. f (t\<lparr>channels := h\<rparr>) = f t" "\<And>t tr. f (t\<lparr>trace := tr\<rparr>) = f t"
    "\<And>t p. f (t\<lparr>panicked := p\<rparr>) = f t"
  shows "f (close_channels cf cs t) = f t"
proof (induction cs arbitrary: t)
  case Nil
  show ?case by simp
next
  case (Cons a cs)
  obtain cn c where a: "a = (cn, c)" by (cases a)
  show ?case
    using Cons.IH close_channel_frame [of f cf c t, OF assms(1,2)]
    by (simp add: a assms(3) split: option.splits)
qed

lemma close_channels_fields [simp]:
  "name (close_channels cf cs t) = name t" "channelMap (close_channels cf cs t) = channelMap t"
  "backend (close_channels cf cs t) = backend t"
  "incomingMessageChan (close_channels cf cs t) = incomingMessageChan t"
  "memoryMsgChan (close_channels cf cs t) = memoryMsgChan t"
  "messagePumpStarter (close_channels cf cs t) = messagePumpStarter t"
  "memQueueSize (close_channels cf cs t) = memQueueSize t" "dataPath (close_channels cf cs t) = dataPath t"
  "maxBytesPerFile (close_channels cf cs t) = maxBytesPerFile t" "messages (close_channels cf cs t) = messages t"
  "router (close_channels cf cs t) = router t" "pump (close_channels cf cs t) = pump t"
  "observers (close_channels cf cs t) = observers t" "tasks (close_channels cf cs t) = tasks t"
  by (rule close_channels_frame; simp)+

lemma copy_to_frame:
  assumes "\<And>t h. f (t\<lparr>messages := h\<rparr>) = f t" "\<And>t x. f (t\<lparr>tasks := x\<rparr>) = f t"
    "\<And>t tr. f (t\<lparr>trace := tr\<rparr>) = f t"
    and "copy_to now msg c t = Some t'"
  shows "f t' = f t"
  using assms(4)
  by (auto simp: copy_to_def assms(1,2,3) emit_def NewMessage_def alloc_def split: option.splits)

lemma fan_out_frame:
  assumes "\<And>t h. f (t\<lparr>messages := h\<rparr>) = f t" "\<And>t x. f (t\<lparr>tasks := x\<rparr>) = f t"
    "\<And>t tr. f (t\<lparr>trace := tr\<rparr>) = f t" "\<And>t p. f (t\<lparr>panicked := p\<rparr>) = f t"
  shows "f (fan_out now msg cs t) = f t"
proof (induction cs arbitrary: t)
  case Nil
  show ?case by simp
next
  case (Cons a cs)
  obtain cn c where a: "a = (cn, c)" by (cases a)
  show ?case
    using Cons.IH copy_to_frame [of f now msg c t, OF assms(1,2,3)]
    by (simp add: a assms(4) split: option.splits)
qed

lemma fan_out_fields [simp]:
  "name (fan_out now msg cs t) = name t" "channelMap (fan_out now msg cs t) = channelMap t"
  "backend (fan_out now msg cs t) = backend t"
  "incomingMessageChan (fan_out now msg cs t) = incomingMessageChan t"
  "memoryMsgChan (fan_out now msg cs t) = memoryMsgChan t"
  "messagePumpStarter (fan_out now msg cs t) = messagePumpStarter t"
  "memQueueSize (fan_out now msg cs t) = memQueueSize t" "dataPath (fan_out now msg cs t) = dataPath t"
  "maxBytesPerFile (fan_out now msg cs t) = maxBytesPerFile t" "channels (fan_out now msg cs t) = channels t"
  "router (fan_out now msg cs t) = router t" "pump (fan_out now msg cs t) = pump t"
  "observers (fan_out now msg cs t) = observers t"
  by (rule fan_out_frame; simp)+

lemma deliver_fields [simp]:
  "name (deliver now msg t) = name t" "channelMap (deliver now msg t) = channelMap t"
  "backend (deliver now msg t) = backend t"
  "incomingMessageChan (deliver now msg t) = incomingMessageChan t"
  "memoryMsgChan (deliver now msg t) = memoryMsgChan t"
  "messagePumpStarter (deliver now msg t) = messagePumpStarter t"
  "memQueueSize (deliver now msg t) = memQueueSize t" "dataPath (deliver now msg t) = dataPath t"
  "maxBytesPerFile (deliver now msg t) = maxBytesPerFile t" "channels (deliver now msg t) = channels t"
  "router (deliver now msg t) = router t" "pump (deliver now msg t) = pump t"
  "observers (deliver now msg t) = observers t"
  by (simp_all add: deliver_def)

subsection \<open>Errors in the loops\<close>

text \<open>
  C6. An error in a pass of a loop costs the message of that pass and nothing else. With
  the memory channel full: when \<open>Encode\<close> fails, the pass of the Router only takes the
  message off the ingest channel and logs; when \<open>backend.Put\<close> fails, it does the same
  (the queue has appended nothing, and nothing is put back). When \<open>DecodeMessage\<close> fails
  on a record from the backend, the pass of the pump consumes the record and logs: no
  goroutine is spawned for any channel. In all three cases the state after the pass has
  the loop where it was (\<open>Looping\<close>, not panicked), so the next pass is taken as usual.
\<close>

theorem errors_drop_one_message:
  "(router t = Looping \<and> panicked t = None \<and> buf (incomingMessageChan t) = msg # rest \<and>
    cap (memoryMsgChan t) \<le> length (buf (memoryMsgChan t)) \<and>
    deref (messages t) msg = Some m \<and> Encode cd m = Inl e \<longrightarrow>
      step cd (Router_ev False put_fails) t =
        Some (emit [Log_encode_failed e] (t\<lparr>incomingMessageChan := (incomingMessageChan t)\<lparr>buf := rest\<rparr>\<rparr>)))
   \<and> (router t = Looping \<and> panicked t = None \<and> buf (incomingMessageChan t) = msg # rest \<and>
    cap (memoryMsgChan t) \<le> length (buf (memoryMsgChan t)) \<and>
    deref (messages t) msg = Some m \<and> Encode cd m = Inr data \<longrightarrow>
      step cd (Router_ev False (Some e)) t =
        Some (emit [Backend_Put data, Log_put_failed e]
               (t\<lparr>incomingMessageChan := (incomingMessageChan t)\<lparr>buf := rest\<rparr>\<rparr>)))
   \<and> (pump t = Looping \<and> panicked t = None \<and> records (backend t) = r # rs \<and>
    DecodeMessage cd r = Inl e \<longrightarrow>
      step cd (Pump_ev From_backend now) t =
        Some (emit [Log_decode_failed e] (t\<lparr>backend := (backend t)\<lparr>records := rs\<rparr>\<rparr>)))"
  by (simp add: step_def Router_iter_def MessagePump_iter_def chan_recv_def chan_try_send_def
        backend_Put_def backend_ReadChan_def Let_def)

theorem errors_drop_one_message_witness:
  "router orders_bad = Looping \<and> panicked orders_bad = None
   \<and> buf (incomingMessageChan orders_bad) = [3]
   \<and> cap (memoryMsgChan orders_bad) \<le> length (buf (memoryMsgChan orders_bad))
   \<and> deref (messages orders_bad) 3 = Some \<lparr>Id_msg = [9], Body = [90], Timestamp = 300\<rparr>
   \<and> Encode demo_codec \<lparr>Id_msg = [9], Body = [90], Timestamp = 300\<rparr> = Inl ''message does not fit''
   \<and> step demo_codec (Router_ev False None) orders_bad =
        Some (emit [Log_encode_failed ''message does not fit'']
               (orders_bad\<lparr>incomingMessageChan := (incomingMessageChan orders_bad)\<lparr>buf := []\<rparr>\<rparr>))
   \<and> router orders_full = Looping \<and> panicked orders_full = None
   \<and> buf (incomingMessageChan orders_full) = [2]
   \<and> cap (memoryMsgChan orders_full) \<le> length (buf (memoryMsgChan orders_full))
   \<and> deref (messages orders_full) 2 = Some \<lparr>Id_msg = [3], Body = [30], Timestamp = 3\<rparr>
   \<and> Encode demo_codec \<lparr>Id_msg = [3], Body = [30], Timestamp = 3\<rparr> = Inr [3, 1, 3, 30]
   \<and> step demo_codec (Router_ev False (Some ''disk full'')) orders_full =
        Some (emit [Backend_Put [3, 1, 3, 30], Log_put_failed ''disk full'']
               (orders_full\<lparr>incomingMessageChan := (incomingMessageChan orders_full)\<lparr>buf := []\<rparr>\<rparr>))
   \<and> pump orders_corrupt = Looping \<and> panicked orders_corrupt = None
   \<and> records (backend orders_corrupt) = [[7]]
   \<and> DecodeMessage demo_codec [7] = Inl ''short record''
   \<and> step demo_codec (Pump_ev From_backend 5) orders_corrupt =
        Some (emit [Log_decode_failed ''short record'']
               (orders_corrupt\<lparr>backend := (backend orders_corrupt)\<lparr>records := []\<rparr>\<rparr>))"
  using errors_drop_one_message [where t = orders_bad and msg = 3 and rest = "[]"
      and m = "\<lparr>Id_msg = [9], Body = [90], Timestamp = 300\<rparr>" and cd = demo_codec
      and e = "''message does not fit''" and put_fails = None]
    errors_drop_one_message [where t = orders_full and msg = 2 and rest = "[]"
      and m = "\<lparr>Id_msg = [3], Body = [30], Timestamp = 3\<rparr>" and cd = demo_codec
      and data = "[3, 1, 3, 30]" and e = "''disk full''"]
    errors_drop_one_message [where t = orders_corrupt and cd = demo_codec
      and e = "''short record''" and r = "[7]" and rs = "[]" and now = 5]
  by (simp add: orders_corrupt_def orders_ab_eval orders_bad_eval orders_full_eval eval_defs)

subsection \<open>Close\<close>

lemma close_channel_effects:
  assumes "c < length (channels t)"
  shows "\<exists>t'. close_channel cf c t = Some t'
     \<and> trace t' = trace t @ close_effects cf (channels t) [(cn, c)]
     \<and> panicked t' = panicked t
     \<and> channels t' = (channels t)[c := (channels t ! c)\<lparr>c_closed := True\<rparr>]"
  using assms
  by (simp add: close_channel_def close_effects_def deref_def Channel_Close_def Let_def
           split: option.splits)

lemma close_effects_Cons:
  "close_effects cf h (a # cs) = close_effects cf h [a] @ close_effects cf h cs"
  by (simp add: close_effects_def)

lemma close_effects_update:
  "close_effects cf (h[c := (h ! c)\<lparr>c_closed := True\<rparr>]) cs = close_effects cf h cs"
proof -
  have *: "channelName ((h[c := (h ! c)\<lparr>c_closed := True\<rparr>]) ! k) = channelName (h ! k)" for k
    by (cases "k = c"; cases "c < length h"; simp add: list_update_beyond)
  show ?thesis unfolding close_effects_def by (simp only: *)
qed

lemma close_channels_effects:
  "\<forall>(cn, c) \<in> set cs. c < length (channels t) \<Longrightarrow>
   trace (close_channels cf cs t) = trace t @ close_effects cf (channels t) cs
   \<and> panicked (close_channels cf cs t) = panicked t
   \<and> length (channels (close_channels cf cs t)) = length (channels t)
   \<and> (\<forall>(cn, c) \<in> set cs. c_closed (channels (close_channels cf cs t) ! c))
   \<and> (\<forall>k. c_closed (channels t ! k) \<longrightarrow> c_closed (channels (close_channels cf cs t) ! k))"
proof (induction cs arbitrary: t)
  case Nil
  show ?case by (simp add: close_effects_def)
next
  case (Cons a cs)
  obtain cn c where a: "a = (cn, c)" by (cases a)
  from Cons.prems a have c: "c < length (channels t)" by simp
  from close_channel_effects [OF c, of cf cn] obtain t' where
    t': "close_channel cf c t = Some t'" "trace t' = trace t @ close_effects cf (channels t) [(cn, c)]"
       "panicked t' = panicked t" "channels t' = (channels t)[c := (channels t ! c)\<lparr>c_closed := True\<rparr>]"
    by blast
  have len: "length (channels t') = length (channels t)" by (simp add: t'(4))
  from Cons.prems have "\<forall>(cn, c) \<in> set cs. c < length (channels t')" by (auto simp: len)
  from Cons.IH [OF this] have IH:
    "trace (close_channels cf cs t') = trace t' @ close_effects cf (channels t') cs"
    "panicked (close_channels cf cs t') = panicked t'"
    "length (channels (close_channels cf cs t')) = length (channels t')"
    "\<forall>(cn, c) \<in> set cs. c_closed (channels (close_channels cf cs t') ! c)"
    "\<forall>k. c_closed (channels t' ! k) \<longrightarrow> c_closed (channels (close_channels cf cs t') ! k)"
    by blast+
  have step: "close_channels cf (a # cs) t = close_channels cf cs t'" by (simp add: a t'(1))
  have closed_c: "c_closed (channels t' ! c)" using c by (simp add: t'(4))
  have mono: "c_closed (channels t ! k) \<Longrightarrow> c_closed (channels t' ! k)" for k
    using c by (cases "k = c"; simp add: t'(4))
  show ?case
    unfolding step
    using IH closed_c mono
    by (auto simp: a t'(2,3) len close_effects_update t'(4) close_effects_Cons [of cf _ "(cn, c)" cs])
qed

text \<open>
  C3. \<open>Close\<close>, on a topic whose channel map points to Channel objects, does in this
  order and nothing else to the outside: the log line, the post of the topic's shutdown
  event, for every entry of the channel map a call of the channel's \<open>Close\<close> (followed
  by a log line when that call returns an error, and then on to the next entry), one
  call of the backend's \<open>Close\<close>. Every channel of the map and the backend are closed
  afterwards. What \<open>Close\<close> returns is what the backend's \<open>Close\<close> returned, an error
  or \<open>nil\<close>, whatever the channels returned.
\<close>

theorem Close_closes_all:
  assumes "\<forall>(cn, c) \<in> set (channelMap t). c < length (channels t)"
  shows "fst (Close close_fails backend_fails t) = backend_fails
       \<and> trace (snd (Close close_fails backend_fails t)) =
             trace t @ [Log_closing (name t), Notify_Post (topic_close t)]
                     @ close_effects close_fails (channels t) (channelMap t) @ [Backend_Close]
       \<and> (\<forall>(cn, c) \<in> set (channelMap t). c_closed (channels (snd (Close close_fails backend_fails t)) ! c))
       \<and> q_closed (backend (snd (Close close_fails backend_fails t)))
       \<and> panicked (snd (Close close_fails backend_fails t)) = panicked t"
proof -
  let ?t1 = "emit [Log_closing (name t)] t"
  let ?t2 = "notify_Post (topic_close ?t1) ?t1"
  have "\<forall>(cn, c) \<in> set (channelMap ?t2). c < length (channels ?t2)"
    using assms by simp
  from close_channels_effects [OF this, of close_fails]
  show ?thesis
    by (cases backend_fails) (simp_all add: Close_def backend_Close_def Let_def topic_close_def)
qed

theorem Close_closes_all_witness:
  "channelMap orders_ab = [(''a'', 0), (''b'', 1)] \<and> length (channels orders_ab) = 2
   \<and> fst (Close (\<lambda>c. if c = 0 then Some ''busy'' else None) None orders_ab) = None
   \<and> trace (snd (Close (\<lambda>c. if c = 0 then Some ''busy'' else None) None orders_ab)) =
         trace orders_ab @ [Log_closing ''orders'', Notify_Post ''orders.topic_close'',
           Channel_Close_call 0, Log_channel_close_failed ''a'' ''busy'', Channel_Close_call 1,
           Backend_Close]
   \<and> fst (Close (\<lambda>c. None) (Some ''sync failed'') orders_ab) = Some ''sync failed''"
  using Close_closes_all [of orders_ab "\<lambda>c. if c = 0 then Some ''busy'' else None" None]
    Close_closes_all [of orders_ab "\<lambda>c. None" "Some ''sync failed''"]
  by (simp add: close_effects_def orders_ab_eval eval_defs)

subsection \<open>Fan-out\<close>

lemma copy_to_ok:
  assumes "deref (messages t) msg = Some m"
  shows "copy_to now msg c t =
     Some (emit [Go_Channel_PutMessage c (length (messages t))]
            (t\<lparr>messages := messages t @ [m], tasks := tasks t @ [(c, length (messages t))]\<rparr>))"
  using assms by (simp add: copy_to_def NewMessage_def alloc_def Let_def)

lemma spawned_Cons: "spawned ((cn, c) # cs) l = (c, l) # spawned cs (Suc l)"
  by (simp add: spawned_def upt_rec)

lemma fan_out_ok:
  assumes "deref (messages t) msg = Some m"
  shows "fan_out now msg cs t =
     emit (map (\<lambda>(c, p). Go_Channel_PutMessage c p) (spawned cs (length (messages t))))
       (t\<lparr>messages := messages t @ replicate (length cs) m,
          tasks := tasks t @ spawned cs (length (messages t))\<rparr>)"
  using assms
proof (induction cs arbitrary: t)
  case Nil
  then show ?case by (simp add: spawned_def emit_def)
next
  case (Cons a cs)
  obtain cn c where a: "a = (cn, c)" by (cases a)
  let ?t1 = "emit [Go_Channel_PutMessage c (length (messages t))]
            (t\<lparr>messages := messages t @ [m], tasks := tasks t @ [(c, length (messages t))]\<rparr>)"
  from Cons.prems have d: "deref (messages ?t1) msg = Some m"
    by (auto simp: deref_def nth_append split: if_splits)
  show ?case
    using Cons.IH [OF d] copy_to_ok [OF Cons.prems, of now c]
    by (simp add: a spawned_Cons emit_def replicate_app_Cons_same)
qed

lemma sent_to_append [simp]: "sent_to c (es @ es') = sent_to c es @ sent_to c es'"
  by (induction c es rule: sent_to.induct) simp_all

lemma sent_to_spawn:
  "sent_to ch (map (\<lambda>(c, p). Go_Channel_PutMessage c p) ts) = map snd (filter (\<lambda>(c, p). c = ch) ts)"
  by (induction ts) auto

lemma filter_zip_notin:
  "ch \<notin> set cs \<Longrightarrow> filter (\<lambda>(c, p). c = ch) (zip cs ps) = []"
  by (auto simp: filter_empty_conv dest: set_zip_leftD)

lemma filter_zip_in:
  "distinct cs \<Longrightarrow> length ps = length cs \<Longrightarrow> ch \<in> set cs \<Longrightarrow>
   \<exists>p. filter (\<lambda>(c, p). c = ch) (zip cs ps) = [(ch, p)] \<and> p \<in> set ps"
proof (induction cs arbitrary: ps)
  case Nil
  then show ?case by simp
next
  case (Cons c cs)
  then obtain q qs where ps: "ps = q # qs" by (cases ps) auto
  show ?case
  proof (cases "c = ch")
    case True
    with Cons.prems have "ch \<notin> set cs" by simp
    then show ?thesis using True by (simp add: ps filter_zip_notin)
  next
    case False
    with Cons.prems Cons.IH [of qs] show ?thesis by (auto simp: ps)
  qed
qed

lemma spawned_props:
  "map fst (spawned cs l) = map snd cs" "map snd (spawned cs l) = [l ..< l + length cs]"
  by (simp_all add: spawned_def)

lemma sent_to_spawned:
  assumes "distinct (map snd cs)"
  shows "if ch \<in> snd ` set cs
         then \<exists>p. sent_to ch (map (\<lambda>(c, p). Go_Channel_PutMessage c p) (spawned cs l)) = [p]
                  \<and> (ch, p) \<in> set (spawned cs l) \<and> l \<le> p \<and> p < l + length cs
         else sent_to ch (map (\<lambda>(c, p). Go_Channel_PutMessage c p) (spawned cs l)) = []"
proof (cases "ch \<in> snd ` set cs")
  case True
  then have "ch \<in> set (map snd cs)" by simp
  from filter_zip_in [OF assms _ this, of "[l ..< l + length cs]"]
  obtain p where p: "filter (\<lambda>(c, p). c = ch) (spawned cs l) = [(ch, p)]" "p \<in> set [l ..< l + length cs]"
    by (auto simp: spawned_def)
  have "(ch, p) \<in> set (filter (\<lambda>(c, p). c = ch) (spawned cs l))" by (simp add: p(1))
  then have "(ch, p) \<in> set (spawned cs l)" by simp
  with p True show ?thesis by (simp add: sent_to_spawn)
next
  case False
  then have "ch \<notin> set (map snd cs)" by simp
  then show ?thesis using False by (simp add: sent_to_spawn spawned_def filter_zip_notin)
qed

lemma deliver_ok:
  assumes "deref (messages t) msg = Some m"
  shows "deliver now msg t =
     emit (Log_channelMap (name t) (channelMap t) #
             map (\<lambda>(c, p). Go_Channel_PutMessage c p) (spawned (channelMap t) (length (messages t))))
       (t\<lparr>messages := messages t @ replicate (length (channelMap t)) m,
          tasks := tasks t @ spawned (channelMap t) (length (messages t))\<rparr>)"
proof -
  have "deref (messages (emit [Log_channelMap (name t) (channelMap t)] t)) msg = Some m"
    using assms by simp
  from fan_out_ok [OF this, of now "channelMap t"]
  show ?thesis by (simp add: deliver_def emit_def)
qed

lemma deliver_sends:
  assumes "deref (messages t) msg = Some m" and "distinct (map snd (channelMap t))"
  shows "if ch \<in> snd ` set (channelMap t)
         then \<exists>p. sent_to ch (trace (deliver now msg t)) = sent_to ch (trace t) @ [p]
                \<and> (ch, p) \<in> set (tasks (deliver now msg t))
                \<and> deref (messages (deliver now msg t)) p = Some m \<and> length (messages t) \<le> p
         else sent_to ch (trace (deliver now msg t)) = sent_to ch (trace t)"
proof -
  have fresh: "deref (messages t @ replicate (length (channelMap t)) m) p = Some m"
    if "length (messages t) \<le> p" "p < length (messages t) + length (channelMap t)" for p
    using that by (simp add: deref_def nth_append)
  show ?thesis
    using sent_to_spawned [OF assms(2), of ch "length (messages t)"] fresh
    by (auto simp: deliver_ok [OF assms(1)] split: if_splits)
qed

lemma pending_append [simp]: "pending ch (ts @ ts') = pending ch ts @ pending ch ts'"
  by (simp add: pending_def)

lemma pending_Cons [simp]:
  "pending ch ((c, p) # ts) = (if c = ch then p # pending ch ts else pending ch ts)"
  by (simp add: pending_def)

lemma pending_Nil [simp]: "pending ch [] = []"
  by (simp add: pending_def)

lemma run_task_fields [simp]:
  "name (run_task i t) = name t" "channelMap (run_task i t) = channelMap t"
  "backend (run_task i t) = backend t"
  "incomingMessageChan (run_task i t) = incomingMessageChan t"
  "memoryMsgChan (run_task i t) = memoryMsgChan t"
  "messagePumpStarter (run_task i t) = messagePumpStarter t"
  "memQueueSize (run_task i t) = memQueueSize t" "dataPath (run_task i t) = dataPath t"
  "maxBytesPerFile (run_task i t) = maxBytesPerFile t" "messages (run_task i t) = messages t"
  "router (run_task i t) = router t" "pump (run_task i t) = pump t"
  "observers (run_task i t) = observers t" "trace (run_task i t) = trace t"
  by (simp_all add: run_task_def split: prod.splits option.splits)

lemma run_task_effect:
  assumes i: "i < length (tasks t)" and ok: "tasks_ok t" and ti: "tasks t ! i = (c, p)"
  shows "run_task i t =
     t\<lparr>channels := (channels t)[c := (channels t ! c)\<lparr>inbox := inbox (channels t ! c) @ [p]\<rparr>],
       tasks := take i (tasks t) @ drop (Suc i) (tasks t)\<rparr>"
    and "c < length (channels t)"
proof -
  from i ti have "(c, p) \<in> set (tasks t)" by (metis nth_mem)
  with ok show c: "c < length (channels t)" by (auto simp: tasks_ok_def)
  then show "run_task i t =
     t\<lparr>channels := (channels t)[c := (channels t ! c)\<lparr>inbox := inbox (channels t ! c) @ [p]\<rparr>],
       tasks := take i (tasks t) @ drop (Suc i) (tasks t)\<rparr>"
    by (simp add: run_task_def ti deref_def Channel_PutMessage_def)
qed

lemma run_task_conserves:
  assumes i: "i < length (tasks t)" and ok: "tasks_ok t"
  shows "tasks_ok (run_task i t)"
    and "length (channels (run_task i t)) = length (channels t)"
    and "panicked (run_task i t) = panicked t"
    and "length (tasks (run_task i t)) < length (tasks t)"
    and "ch < length (channels t) \<Longrightarrow>
         mset (received ch (run_task i t)) + mset (pending ch (tasks (run_task i t)))
           = mset (received ch t) + mset (pending ch (tasks t))"
proof -
  obtain c p where ti: "tasks t ! i = (c, p)" by (cases "tasks t ! i")
  note e = run_task_effect [OF i ok ti]
  have split: "tasks t = take i (tasks t) @ (c, p) # drop (Suc i) (tasks t)"
    using i ti by (metis id_take_nth_drop)
  have sub: "set (take i (tasks t) @ drop (Suc i) (tasks t)) \<subseteq> set (tasks t)"
    by (metis Un_least set_append set_drop_subset set_take_subset)
  show "tasks_ok (run_task i t)"
    using ok sub by (auto simp: e(1) tasks_ok_def)
  show "length (channels (run_task i t)) = length (channels t)" by (simp add: e(1))
  show "panicked (run_task i t) = panicked t" by (simp add: e(1))
  show "length (tasks (run_task i t)) < length (tasks t)" using i by (simp add: e(1))
  assume ch: "ch < length (channels t)"
  have "mset (pending ch (tasks t)) =
        mset (pending ch (take i (tasks t) @ drop (Suc i) (tasks t))) + (if c = ch then {#p#} else {#})"
    by (subst split) simp
  moreover have "mset (received ch (run_task i t)) =
        mset (received ch t) + (if c = ch then {#p#} else {#})"
    using ch e(2) by (simp add: e(1) received_def nth_list_update)
  ultimately show "mset (received ch (run_task i t)) + mset (pending ch (tasks (run_task i t)))
           = mset (received ch t) + mset (pending ch (tasks t))"
    by (simp add: e(1))
qed

lemma run_tasks_conserve:
  assumes "list_all is_Task evs" and "run cd evs t = Some t'" and "tasks_ok t"
    and "ch < length (channels t)"
  shows "mset (received ch t') + mset (pending ch (tasks t'))
           = mset (received ch t) + mset (pending ch (tasks t))
       \<and> messages t' = messages t"
  using assms
proof (induction evs arbitrary: t)
  case Nil
  then show ?case by simp
next
  case (Cons ev evs)
  from Cons.prems(1) have "is_Task ev" and rest: "list_all is_Task evs" by simp_all
  then obtain i where ev: "ev = Task_ev i"
    by (cases ev) (simp_all add: is_Task_def)
  from Cons.prems(2) have i: "i < length (tasks t)" and r: "run cd evs (run_task i t) = Some t'"
    by (auto simp: ev step_def split: if_splits option.splits)
  note c = run_task_conserves [OF i Cons.prems(3)]
  from Cons.IH [OF rest r c(1)] Cons.prems(4) c(2) c(5) [of ch]
  show ?case by simp
qed

lemma run_tasks_terminate:
  assumes "panicked t = None" and "tasks_ok t"
  shows "\<exists>t'. run cd (replicate (length (tasks t)) (Task_ev 0)) t = Some t' \<and> tasks t' = []"
  using assms
proof (induction "length (tasks t)" arbitrary: t)
  case 0
  then show ?case by simp
next
  case (Suc n)
  have i: "0 < length (tasks t)" by (metis Suc.hyps(2) zero_less_Suc)
  note c = run_task_conserves [OF i Suc.prems(2)]
  have len: "length (tasks (run_task 0 t)) = n"
  proof -
    obtain c p where ti: "tasks t ! 0 = (c, p)" by (cases "tasks t ! 0")
    from run_task_effect(1) [OF i Suc.prems(2) ti] Suc.hyps(2) show ?thesis by simp
  qed
  from Suc.hyps(1) [OF len [symmetric]] c(1,3) Suc.prems(1)
  obtain t' where "run cd (replicate n (Task_ev 0)) (run_task 0 t) = Some t'" "tasks t' = []"
    by (auto simp: len)
  moreover have "step cd (Task_ev 0) t = Some (run_task 0 t)"
    using Suc.prems(1) i by (simp add: step_def)
  ultimately show ?case using Suc.hyps(2) [symmetric] by simp
qed

lemma received_frame [simp]:
  "received ch (t\<lparr>memoryMsgChan := x\<rparr>) = received ch t"
  "received ch (t\<lparr>backend := y, messages := z\<rparr>) = received ch t"
  by (simp_all add: received_def)

lemma deliver_pending:
  assumes "deref (messages t) msg = Some m"
  shows "pending ch (tasks (deliver now msg t)) =
           pending ch (tasks t) @ pending ch (spawned (channelMap t) (length (messages t)))"
    and "sent_to ch (trace (deliver now msg t)) =
           sent_to ch (trace t) @ pending ch (spawned (channelMap t) (length (messages t)))"
    and "channels (deliver now msg t) = channels t"
    and "panicked (deliver now msg t) = panicked t"
    and "set (tasks (deliver now msg t)) \<subseteq> set (tasks t) \<union> {(c, p). c \<in> snd ` set (channelMap t)}"
proof -
  show "pending ch (tasks (deliver now msg t)) =
           pending ch (tasks t) @ pending ch (spawned (channelMap t) (length (messages t)))"
    by (simp add: deliver_ok [OF assms])
  show "sent_to ch (trace (deliver now msg t)) =
           sent_to ch (trace t) @ pending ch (spawned (channelMap t) (length (messages t)))"
    by (simp add: deliver_ok [OF assms] sent_to_spawn pending_def)
  show "channels (deliver now msg t) = channels t" by simp
  show "panicked (deliver now msg t) = panicked t" by (simp add: deliver_ok [OF assms])
  have "set (spawned (channelMap t) (length (messages t))) \<subseteq> {(c, p). c \<in> snd ` set (channelMap t)}"
    by (auto simp: spawned_def dest!: set_zip_leftD)
  then show "set (tasks (deliver now msg t)) \<subseteq> set (tasks t) \<union> {(c, p). c \<in> snd ` set (channelMap t)}"
    by (auto simp: deliver_ok [OF assms])
qed

lemma deliver_received:
  assumes d: "deref (messages t) msg = Some m" and dist: "distinct (map snd (channelMap t))"
    and reg: "\<forall>(cn, ch) \<in> set (channelMap t). ch < length (channels t)"
    and ok: "tasks_ok t" and np: "panicked t = None"
  shows "\<exists>t''. run cd (replicate (length (tasks (deliver now msg t))) (Task_ev 0)) (deliver now msg t)
               = Some t'' \<and> tasks t'' = []"
    and "if ch \<in> snd ` set (channelMap t)
         then \<exists>p. sent_to ch (trace (deliver now msg t)) = sent_to ch (trace t) @ [p]
                \<and> (ch, p) \<in> set (tasks (deliver now msg t))
                \<and> deref (messages (deliver now msg t)) p = Some m \<and> length (messages t) \<le> p
                \<and> (\<forall>evs t''. list_all is_Task evs \<and> run cd evs (deliver now msg t) = Some t''
                       \<and> tasks t'' = [] \<longrightarrow>
                     mset (received ch t'') = mset (received ch t) + mset (pending ch (tasks t)) + {#p#}
                     \<and> deref (messages t'') p = Some m)
         else sent_to ch (trace (deliver now msg t)) = sent_to ch (trace t)
              \<and> (\<forall>evs t''. list_all is_Task evs \<and> run cd evs (deliver now msg t) = Some t''
                       \<and> tasks t'' = [] \<and> ch < length (channels t) \<longrightarrow>
                     mset (received ch t'') = mset (received ch t) + mset (pending ch (tasks t)))"
proof -
  let ?t' = "deliver now msg t"
  note p = deliver_pending [OF d, where now = now]
  have ok': "tasks_ok ?t'"
    using p(5) ok reg by (fastforce simp: tasks_ok_def p(3))
  have np': "panicked ?t' = None" using np by (simp add: p(4))
  show "\<exists>t''. run cd (replicate (length (tasks ?t')) (Task_ev 0)) ?t' = Some t'' \<and> tasks t'' = []"
    using np' ok' by (rule run_tasks_terminate)
  have cons: "mset (received c t'') = mset (received c t) + mset (pending c (tasks ?t'))
              \<and> messages t'' = messages ?t'"
    if "list_all is_Task evs" "run cd evs ?t' = Some t''" "tasks t'' = []" "c < length (channels t)"
    for evs t'' c
  proof -
    from that(4) have "c < length (channels ?t')" by (simp add: p(3))
    from run_tasks_conserve [OF that(1,2) ok' this] that(3)
    show ?thesis by (simp add: received_def p(3))
  qed
  show "if ch \<in> snd ` set (channelMap t)
         then \<exists>p. sent_to ch (trace ?t') = sent_to ch (trace t) @ [p]
                \<and> (ch, p) \<in> set (tasks ?t')
                \<and> deref (messages ?t') p = Some m \<and> length (messages t) \<le> p
                \<and> (\<forall>evs t''. list_all is_Task evs \<and> run cd evs ?t' = Some t''
                       \<and> tasks t'' = [] \<longrightarrow>
                     mset (received ch t'') = mset (received ch t) + mset (pending ch (tasks t)) + {#p#}
                     \<and> deref (messages t'') p = Some m)
         else sent_to ch (trace ?t') = sent_to ch (trace t)
              \<and> (\<forall>evs t''. list_all is_Task evs \<and> run cd evs ?t' = Some t''
                       \<and> tasks t'' = [] \<and> ch < length (channels t) \<longrightarrow>
                     mset (received ch t'') = mset (received ch t) + mset (pending ch (tasks t)))"
  proof (cases "ch \<in> snd ` set (channelMap t)")
    case True
    then have chl: "ch < length (channels t)" using reg by auto
    from deliver_sends [OF d dist, of ch now] True obtain q where
      q: "sent_to ch (trace ?t') = sent_to ch (trace t) @ [q]" "(ch, q) \<in> set (tasks ?t')"
         "deref (messages ?t') q = Some m" "length (messages t) \<le> q"
      by auto
    from q(1) p(2) [where ch = ch] have sp: "pending ch (spawned (channelMap t) (length (messages t))) = [q]"
      by simp
    have "mset (received ch t'') = mset (received ch t) + mset (pending ch (tasks t)) + {#q#}
          \<and> deref (messages t'') q = Some m"
      if "list_all is_Task evs \<and> run cd evs ?t' = Some t'' \<and> tasks t'' = []" for evs t''
      using cons [of evs t'' ch] that chl q(3) by (simp add: p(1) sp)
    with q True show ?thesis by auto
  next
    case False
    from deliver_sends [OF d dist, of ch now] False
    have s: "sent_to ch (trace ?t') = sent_to ch (trace t)" by simp
    with p(2) [where ch = ch] have sp: "pending ch (spawned (channelMap t) (length (messages t))) = []"
      by simp
    have "mset (received ch t'') = mset (received ch t) + mset (pending ch (tasks t))"
      if "list_all is_Task evs \<and> run cd evs ?t' = Some t'' \<and> tasks t'' = [] \<and> ch < length (channels t)"
      for evs t''
      using cons [of evs t'' ch] that by (simp add: p(1) sp)
    with s False show ?thesis by auto
  qed
qed

text \<open>
  C2. In a pass in which the pump obtains a message \<open>m\<close> (its \<open>select\<close> takes a pointer
  to \<open>m\<close> from the memory channel, or a record from the backend that decodes to \<open>m\<close>),
  that message or record is taken off its queue and the other queue is left alone; for
  every channel of the channel map exactly one goroutine is spawned that hands the
  channel a message; that message is a new object, and its id, body and timestamp are
  those of \<open>m\<close>. The goroutines can all run, and however they are scheduled, once they have
  run every channel of the map has received, besides what it had and what was pending
  for it before, exactly that one copy; a channel that is not in the map has received
  nothing new.
\<close>

theorem MessagePump_iter_fans_out:
  assumes "panicked t = None"
    and "distinct (map snd (channelMap t))"
    and "\<forall>(cn, ch) \<in> set (channelMap t). ch < length (channels t)"
    and "tasks_ok t"
    and "c = From_memory \<and> (\<exists>msg rest. buf (memoryMsgChan t) = msg # rest \<and> deref (messages t) msg = Some m)
       \<or> c = From_backend \<and> (\<exists>r rs. records (backend t) = r # rs \<and> DecodeMessage cd r = Inr m)"
  shows "\<exists>t'. MessagePump_iter cd c now t = Some t'
     \<and> (c = From_memory \<longrightarrow>
           buf (memoryMsgChan t') = tl (buf (memoryMsgChan t)) \<and> backend t' = backend t)
     \<and> (c = From_backend \<longrightarrow>
           records (backend t') = tl (records (backend t)) \<and> memoryMsgChan t' = memoryMsgChan t)
     \<and> channelMap t' = channelMap t \<and> channels t' = channels t \<and> panicked t' = None
     \<and> (\<exists>t''. run cd (replicate (length (tasks t')) (Task_ev 0)) t' = Some t'' \<and> tasks t'' = [])
     \<and> (\<forall>ch. if ch \<in> snd ` set (channelMap t)
           then \<exists>p. sent_to ch (trace t') = sent_to ch (trace t) @ [p]
                  \<and> (ch, p) \<in> set (tasks t')
                  \<and> deref (messages t') p = Some m \<and> length (messages t) \<le> p
                  \<and> (\<forall>evs t''. list_all is_Task evs \<and> run cd evs t' = Some t'' \<and> tasks t'' = [] \<longrightarrow>
                       mset (received ch t'') = mset (received ch t) + mset (pending ch (tasks t)) + {#p#}
                       \<and> deref (messages t'') p = Some m)
           else sent_to ch (trace t') = sent_to ch (trace t)
                \<and> (\<forall>evs t''. list_all is_Task evs \<and> run cd evs t' = Some t'' \<and> tasks t'' = []
                         \<and> ch < length (channels t) \<longrightarrow>
                       mset (received ch t'') = mset (received ch t) + mset (pending ch (tasks t))))"
  using assms(5)
proof (elim disjE conjE exE)
  fix msg rest
  assume c: "c = From_memory" and b: "buf (memoryMsgChan t) = msg # rest"
    and d: "deref (messages t) msg = Some m"
  let ?t1 = "t\<lparr>memoryMsgChan := (memoryMsgChan t)\<lparr>buf := rest\<rparr>\<rparr>"
  have it: "MessagePump_iter cd c now t = Some (deliver now msg ?t1)"
    by (simp add: MessagePump_iter_def c chan_recv_def b)
  have h: "deref (messages ?t1) msg = Some m" "distinct (map snd (channelMap ?t1))"
    "\<forall>(cn, ch) \<in> set (channelMap ?t1). ch < length (channels ?t1)" "tasks_ok ?t1"
    "panicked ?t1 = None"
    using d assms(1-4) by (simp_all add: tasks_ok_def)
  note r = deliver_received [OF h, where cd = cd and now = now]
  have r2: "if ch \<in> snd ` set (channelMap t)
           then \<exists>p. sent_to ch (trace (deliver now msg ?t1)) = sent_to ch (trace t) @ [p]
                  \<and> (ch, p) \<in> set (tasks (deliver now msg ?t1))
                  \<and> deref (messages (deliver now msg ?t1)) p = Some m \<and> length (messages t) \<le> p
                  \<and> (\<forall>evs t''. list_all is_Task evs \<and> run cd evs (deliver now msg ?t1) = Some t''
                         \<and> tasks t'' = [] \<longrightarrow>
                       mset (received ch t'') = mset (received ch t) + mset (pending ch (tasks t)) + {#p#}
                       \<and> deref (messages t'') p = Some m)
           else sent_to ch (trace (deliver now msg ?t1)) = sent_to ch (trace t)
                \<and> (\<forall>evs t''. list_all is_Task evs \<and> run cd evs (deliver now msg ?t1) = Some t''
                         \<and> tasks t'' = [] \<and> ch < length (channels t) \<longrightarrow>
                       mset (received ch t'') = mset (received ch t) + mset (pending ch (tasks t)))" for ch
    using r(2) [where ch = ch] by (cases "ch \<in> snd ` set (channelMap t)") auto
  have p: "panicked (deliver now msg ?t1) = None"
    using deliver_pending(4) [OF h(1), where now = now] assms(1) by simp
  show ?thesis
    unfolding it
    by (intro exI [of _ "deliver now msg ?t1"] conjI allI r2 r(1)) (simp_all add: c b p)
next
  fix r rs
  assume c: "c = From_backend" and b: "records (backend t) = r # rs"
    and d: "DecodeMessage cd r = Inr m"
  let ?l = "length (messages t)"
  let ?t1 = "t\<lparr>backend := (backend t)\<lparr>records := rs\<rparr>, messages := messages t @ [m]\<rparr>"
  have it: "MessagePump_iter cd c now t = Some (deliver now ?l ?t1)"
    by (simp add: MessagePump_iter_def c backend_ReadChan_def b d alloc_def)
  have h: "deref (messages ?t1) ?l = Some m" "distinct (map snd (channelMap ?t1))"
    "\<forall>(cn, ch) \<in> set (channelMap ?t1). ch < length (channels ?t1)" "tasks_ok ?t1"
    "panicked ?t1 = None"
    using assms(1-4) by (simp_all add: tasks_ok_def deref_def)
  note r = deliver_received [OF h, where cd = cd and now = now]
  have r2: "if ch \<in> snd ` set (channelMap t)
           then \<exists>p. sent_to ch (trace (deliver now ?l ?t1)) = sent_to ch (trace t) @ [p]
                  \<and> (ch, p) \<in> set (tasks (deliver now ?l ?t1))
                  \<and> deref (messages (deliver now ?l ?t1)) p = Some m \<and> length (messages t) \<le> p
                  \<and> (\<forall>evs t''. list_all is_Task evs \<and> run cd evs (deliver now ?l ?t1) = Some t''
                         \<and> tasks t'' = [] \<longrightarrow>
                       mset (received ch t'') = mset (received ch t) + mset (pending ch (tasks t)) + {#p#}
                       \<and> deref (messages t'') p = Some m)
           else sent_to ch (trace (deliver now ?l ?t1)) = sent_to ch (trace t)
                \<and> (\<forall>evs t''. list_all is_Task evs \<and> run cd evs (deliver now ?l ?t1) = Some t''
                         \<and> tasks t'' = [] \<and> ch < length (channels t) \<longrightarrow>
                       mset (received ch t'') = mset (received ch t) + mset (pending ch (tasks t)))" for ch
    using r(2) [where ch = ch] by (cases "ch \<in> snd ` set (channelMap t)") (auto intro: Suc_leD)
  have p: "panicked (deliver now ?l ?t1) = None"
    using deliver_pending(4) [OF h(1), where now = now] assms(1) by simp
  show ?thesis
    unfolding it
    by (intro exI [of _ "deliver now ?l ?t1"] conjI allI r2 r(1)) (simp_all add: c b p)
qed

theorem MessagePump_iter_fans_out_witness:
  "panicked orders_ab = None
   \<and> channelMap orders_ab = [(''a'', 0), (''b'', 1)] \<and> length (channels orders_ab) = 2
   \<and> tasks orders_ab = []
   \<and> buf (memoryMsgChan orders_ab) = [0, 1]
   \<and> deref (messages orders_ab) 0 = Some \<lparr>Id_msg = [1], Body = [10], Timestamp = 1\<rparr>
   \<and> buf (memoryMsgChan (the (MessagePump_iter demo_codec From_memory 7 orders_ab))) = [1]
   \<and> sent_to 0 (trace (the (MessagePump_iter demo_codec From_memory 7 orders_ab))) = [3]
   \<and> sent_to 1 (trace (the (MessagePump_iter demo_codec From_memory 7 orders_ab))) = [4]
   \<and> map inbox (channels (the (MessagePump_iter demo_codec From_memory 7 orders_ab))) = [[], []]
   \<and> map inbox (channels (the (run demo_codec [Task_ev 1, Task_ev 0]
         (the (MessagePump_iter demo_codec From_memory 7 orders_ab))))) = [[3], [4]]
   \<and> tasks (the (run demo_codec [Task_ev 1, Task_ev 0]
         (the (MessagePump_iter demo_codec From_memory 7 orders_ab)))) = []
   \<and> deref (messages (the (MessagePump_iter demo_codec From_memory 7 orders_ab))) 3
         = Some \<lparr>Id_msg = [1], Body = [10], Timestamp = 1\<rparr>
   \<and> deref (messages (the (MessagePump_iter demo_codec From_memory 7 orders_ab))) 4
         = Some \<lparr>Id_msg = [1], Body = [10], Timestamp = 1\<rparr>"
  using MessagePump_iter_fans_out [where t = orders_ab and c = From_memory
      and m = "\<lparr>Id_msg = [1], Body = [10], Timestamp = 1\<rparr>" and cd = demo_codec and now = 7]
  by (simp add: orders_ab_eval eval_defs tasks_ok_def run_task_def Channel_PutMessage_def)

lemma zip_distinct_snd:
  "distinct ps \<Longrightarrow> (a, p) \<in> set (zip cs ps) \<Longrightarrow> (b, p) \<in> set (zip cs ps) \<Longrightarrow> a = b"
proof (induction cs arbitrary: ps)
  case Nil
  then show ?case by simp
next
  case (Cons c cs)
  then obtain q qs where ps: "ps = q # qs" by (cases ps) auto
  show ?case using Cons.prems Cons.IH [of qs]
    by (auto simp: ps dest: set_zip_rightD)
qed

text \<open>
  C7. The messages that one fan-out hands to two different channels are different
  objects, and neither is the message that is fanned out: all are new allocations of
  \<open>NewMessage\<close>. So whatever the holder of one copy does to it, to its body or any other
  field, the copy of the other channel still reads as the original message, and so does
  the original.
\<close>

theorem copies_independent:
  assumes "deref (messages t) msg = Some m"
    and "t' = deliver now msg t"
    and "(a, pa) \<in> set (drop (length (tasks t)) (tasks t'))"
    and "(b, pb) \<in> set (drop (length (tasks t)) (tasks t'))"
    and "a \<noteq> b"
  shows "pa \<noteq> pb \<and> pa \<noteq> msg
       \<and> deref (messages t') pb = Some m
       \<and> deref (mutate pa f (messages t')) pb = Some m
       \<and> deref (mutate pa f (messages t')) msg = Some m"
proof -
  let ?l = "length (messages t)"
  let ?n = "length (channelMap t)"
  have tasks: "drop (length (tasks t)) (tasks t') = spawned (channelMap t) ?l"
    and msgs: "messages t' = messages t @ replicate ?n m"
    by (simp_all add: assms(2) deliver_ok [OF assms(1)])
  from assms(3,4) have ina: "(a, pa) \<in> set (spawned (channelMap t) ?l)"
    and inb: "(b, pb) \<in> set (spawned (channelMap t) ?l)"
    by (simp_all add: tasks)
  have ne: "pa \<noteq> pb"
    using zip_distinct_snd [of "[?l ..< ?l + ?n]" a pa "map snd (channelMap t)" b] ina inb assms(5)
    by (auto simp: spawned_def)
  from ina inb have ra: "?l \<le> pa" "pa < ?l + ?n" and rb: "?l \<le> pb" "pb < ?l + ?n"
    by (auto simp: spawned_def dest!: set_zip_rightD)
  from assms(1) have lt: "msg < ?l" and m: "messages t ! msg = m"
    by (auto simp: deref_def split: if_splits)
  show ?thesis
    using ne ra rb lt m
    by (simp add: msgs deref_def mutate_def nth_append)
qed

theorem copies_independent_witness:
  "deref (messages orders_ab) 0 = Some \<lparr>Id_msg = [1], Body = [10], Timestamp = 1\<rparr>
   \<and> drop (length (tasks orders_ab)) (tasks (deliver 7 0 orders_ab)) = [(0, 3), (1, 4)]
   \<and> (0::nat) \<noteq> 1
   \<and> deref (mutate 3 (\<lambda>m. m\<lparr>Body := [66]\<rparr>) (messages (deliver 7 0 orders_ab))) 3
         = Some \<lparr>Id_msg = [1], Body = [66], Timestamp = 1\<rparr>
   \<and> deref (mutate 3 (\<lambda>m. m\<lparr>Body := [66]\<rparr>) (messages (deliver 7 0 orders_ab))) 4
         = Some \<lparr>Id_msg = [1], Body = [10], Timestamp = 1\<rparr>"
  using copies_independent [of orders_ab 0 "\<lparr>Id_msg = [1], Body = [10], Timestamp = 1\<rparr>"
      "deliver 7 0 orders_ab" 7 0 3 1 4 "\<lambda>m. m\<lparr>Body := [66]\<rparr>"]
  by (simp add: mutate_def orders_ab_eval eval_defs)

subsection \<open>Steps and runs\<close>

lemma run_append:
  "run cd (es @ es') t = (case run cd es t of None \<Rightarrow> None | Some t' \<Rightarrow> run cd es' t')"
  by (induction es arbitrary: t) (simp_all split: option.splits)

lemma run_invariant:
  assumes "\<And>t ev t'. P t \<Longrightarrow> step cd ev t = Some t' \<Longrightarrow> P t'"
    and "P t" and "run cd evs t = Some t'"
  shows "P t'"
  using assms(2,3)
  by (induction evs arbitrary: t) (auto split: option.splits intro: assms(1))

lemma run_relation:
  assumes "\<And>t ev t'. P t \<Longrightarrow> step cd ev t = Some t' \<Longrightarrow> P t' \<and> R t t'"
    and "\<And>t. R t t" and "\<And>a b c. R a b \<Longrightarrow> R b c \<Longrightarrow> R a c"
    and "P t" and "run cd evs t = Some t'"
  shows "P t' \<and> R t t'"
  using assms(4,5)
proof (induction evs arbitrary: t)
  case Nil
  then show ?case by (simp add: assms(2))
next
  case (Cons ev evs)
  then obtain t1 where s: "step cd ev t = Some t1" and r: "run cd evs t1 = Some t'"
    by (auto split: option.splits)
  from assms(1) [OF Cons.prems(1) s] have "P t1" "R t t1" by simp_all
  with Cons.IH [OF _ r] assms(3) show ?case by blast
qed

lemma step_cases [consumes 1, case_names NewMessage PutMessage GetChannel Close Router_start Router
    Pump_start Pump Task]:
  assumes "step cd ev t = Some t'"
  obtains
    mid body now where "ev = NewMessage_ev mid body now" "panicked t = None"
      "t' = t\<lparr>messages := messages t @ [\<lparr>Id_msg = mid, Body = body, Timestamp = now\<rparr>]\<rparr>"
  | msg where "ev = PutMessage_ev msg" "panicked t = None" "msg < length (messages t)"
      "length (buf (incomingMessageChan t)) < cap (incomingMessageChan t)"
      "t' = t\<lparr>incomingMessageChan :=
               (incomingMessageChan t)\<lparr>buf := buf (incomingMessageChan t) @ [msg]\<rparr>\<rparr>"
  | cn where "ev = GetChannel_ev cn" "panicked t = None" "t' = snd (GetChannel cn t)"
  | cf bf where "ev = Close_ev cf bf" "panicked t = None" "t' = snd (Close cf bf t)"
  | "ev = Router_start_ev" "panicked t = None" "router t = Spawned" "t' = Router_start t"
  | parked pf where "ev = Router_ev parked pf" "panicked t = None" "router t = Looping"
      "\<not> parked \<or> pump t = Looping \<and> buf (memoryMsgChan t) = []"
      "Router_iter cd parked pf t = Some t'"
  | "ev = Pump_start_ev" "panicked t = None" "pump t = Spawned" "t' = MessagePump_start t"
  | c now where "ev = Pump_ev c now" "panicked t = None" "pump t = Looping"
      "MessagePump_iter cd c now t = Some t'"
  | i where "ev = Task_ev i" "panicked t = None" "i < length (tasks t)" "t' = run_task i t"
proof -
  from assms have np: "panicked t = None"
    by (simp add: step_def split: if_splits)
  show thesis
  proof (cases ev)
    case (NewMessage_ev mid body now)
    from assms np have "t' = t\<lparr>messages := messages t @ [\<lparr>Id_msg = mid, Body = body, Timestamp = now\<rparr>]\<rparr>"
      by (simp add: step_def NewMessage_ev NewMessage_def alloc_def)
    with NewMessage_ev np show thesis by (rule that(1))
  next
    case (PutMessage_ev msg)
    from assms np have v: "msg < length (messages t)"
      and r: "PutMessage msg t = Some t'"
      by (simp_all add: step_def PutMessage_ev split: if_splits)
    from r have l: "length (buf (incomingMessageChan t)) < cap (incomingMessageChan t)"
      and e: "t' = t\<lparr>incomingMessageChan :=
               (incomingMessageChan t)\<lparr>buf := buf (incomingMessageChan t) @ [msg]\<rparr>\<rparr>"
      by (simp_all add: PutMessage_def chan_send_def split: if_splits)
    from PutMessage_ev np v l e show thesis by (rule that(2))
  next
    case (GetChannel_ev cn)
    from assms np have "t' = snd (GetChannel cn t)" by (simp add: step_def GetChannel_ev)
    with GetChannel_ev np show thesis by (rule that(3))
  next
    case (Close_ev cf bf)
    from assms np have "t' = snd (Close cf bf t)" by (simp add: step_def Close_ev)
    with Close_ev np show thesis by (rule that(4))
  next
    case Router_start_ev
    from assms np have "router t = Spawned" "t' = Router_start t"
      by (simp_all add: step_def Router_start_ev split: if_splits)
    with Router_start_ev np show thesis by (rule that(5))
  next
    case (Router_ev parked pf)
    from assms np have "router t = Looping"
      "\<not> parked \<or> pump t = Looping \<and> buf (memoryMsgChan t) = []"
      "Router_iter cd parked pf t = Some t'"
      by (simp_all add: step_def Router_ev split: if_splits)
    with Router_ev np show thesis by (rule that(6))
  next
    case Pump_start_ev
    from assms np have "pump t = Spawned" "t' = MessagePump_start t"
      by (simp_all add: step_def Pump_start_ev split: if_splits)
    with Pump_start_ev np show thesis by (rule that(7))
  next
    case (Pump_ev c now)
    from assms np have "pump t = Looping" "MessagePump_iter cd c now t = Some t'"
      by (simp_all add: step_def Pump_ev split: if_splits)
    with Pump_ev np show thesis by (rule that(8))
  next
    case (Task_ev i)
    from assms np have "i < length (tasks t)" "t' = run_task i t"
      by (simp_all add: step_def Task_ev split: if_splits)
    with Task_ev np show thesis by (rule that(9))
  qed
qed

lemma Router_iter_cases [consumes 1, case_names memory panic encode_failed put_failed backend]:
  assumes "Router_iter cd parked pf t = Some t'"
  obtains
    msg rest where "buf (incomingMessageChan t) = msg # rest"
      "parked \<or> length (buf (memoryMsgChan t)) < cap (memoryMsgChan t)"
      "t' = t\<lparr>incomingMessageChan := (incomingMessageChan t)\<lparr>buf := rest\<rparr>,
              memoryMsgChan := (memoryMsgChan t)\<lparr>buf := buf (memoryMsgChan t) @ [msg]\<rparr>\<rparr>"
  | msg rest where "buf (incomingMessageChan t) = msg # rest"
      "\<not> parked" "cap (memoryMsgChan t) \<le> length (buf (memoryMsgChan t))"
      "deref (messages t) msg = None"
      "t' = t\<lparr>incomingMessageChan := (incomingMessageChan t)\<lparr>buf := rest\<rparr>,
              panicked := Some Nil_pointer_dereference\<rparr>"
  | msg rest m e where "buf (incomingMessageChan t) = msg # rest"
      "\<not> parked" "cap (memoryMsgChan t) \<le> length (buf (memoryMsgChan t))"
      "deref (messages t) msg = Some m" "Encode cd m = Inl e"
      "t' = emit [Log_encode_failed e] (t\<lparr>incomingMessageChan := (incomingMessageChan t)\<lparr>buf := rest\<rparr>\<rparr>)"
  | msg rest m data e where "buf (incomingMessageChan t) = msg # rest"
      "\<not> parked" "cap (memoryMsgChan t) \<le> length (buf (memoryMsgChan t))"
      "deref (messages t) msg = Some m" "Encode cd m = Inr data" "pf = Some e"
      "t' = emit [Backend_Put data, Log_put_failed e]
              (t\<lparr>incomingMessageChan := (incomingMessageChan t)\<lparr>buf := rest\<rparr>\<rparr>)"
  | msg rest m data where "buf (incomingMessageChan t) = msg # rest"
      "\<not> parked" "cap (memoryMsgChan t) \<le> length (buf (memoryMsgChan t))"
      "deref (messages t) msg = Some m" "Encode cd m = Inr data" "pf = None"
      "t' = emit [Backend_Put data]
              (t\<lparr>incomingMessageChan := (incomingMessageChan t)\<lparr>buf := rest\<rparr>,
                 backend := (backend t)\<lparr>records := records (backend t) @ [data]\<rparr>\<rparr>)"
proof -
  from assms obtain msg rest where inc: "buf (incomingMessageChan t) = msg # rest"
    by (auto simp: Router_iter_def chan_recv_def split: list.splits)
  let ?t1 = "t\<lparr>incomingMessageChan := (incomingMessageChan t)\<lparr>buf := rest\<rparr>\<rparr>"
  show thesis
  proof (cases "parked \<or> length (buf (memoryMsgChan t)) < cap (memoryMsgChan t)")
    case True
    with assms inc have "t' = ?t1\<lparr>memoryMsgChan := (memoryMsgChan t)\<lparr>buf := buf (memoryMsgChan t) @ [msg]\<rparr>\<rparr>"
      by (auto simp: Router_iter_def chan_recv_def chan_try_send_def)
    with inc True show thesis by (intro that(1)) simp_all
  next
    case False
    then have np: "\<not> parked" and full: "cap (memoryMsgChan t) \<le> length (buf (memoryMsgChan t))"
      by simp_all
    note defs = Router_iter_def chan_recv_def chan_try_send_def backend_Put_def Let_def
    show thesis
    proof (cases "deref (messages t) msg")
      case None
      with assms inc False have "t' = ?t1\<lparr>panicked := Some Nil_pointer_dereference\<rparr>"
        by (simp add: defs)
      with inc np full None show thesis by (intro that(2)) simp_all
    next
      case (Some m)
      show thesis
      proof (cases "Encode cd m")
        case (Inl e)
        with assms inc False Some have "t' = emit [Log_encode_failed e] ?t1"
          by (simp add: defs)
        with inc np full Some Inl show thesis by (intro that(3)) simp_all
      next
        case (Inr data)
        show thesis
        proof (cases pf)
          case None
          with assms inc False Some Inr have "t' = emit [Backend_Put data]
              (?t1\<lparr>backend := (backend t)\<lparr>records := records (backend t) @ [data]\<rparr>\<rparr>)"
            by (simp add: defs)
          with inc np full Some Inr None show thesis by (intro that(5)) simp_all
        next
          case (Some e)
          with assms inc False \<open>deref (messages t) msg = Some m\<close> Inr
          have "t' = emit [Backend_Put data, Log_put_failed e] ?t1"
            by (simp add: defs)
          with inc np full \<open>deref (messages t) msg = Some m\<close> Inr Some show thesis
            by (intro that(4)) simp_all
        qed
      qed
    qed
  qed
qed

lemma MessagePump_iter_cases [consumes 1, case_names memory decode_failed backend]:
  assumes "MessagePump_iter cd c now t = Some t'"
  obtains
    msg rest where "c = From_memory" "buf (memoryMsgChan t) = msg # rest"
      "t' = deliver now msg (t\<lparr>memoryMsgChan := (memoryMsgChan t)\<lparr>buf := rest\<rparr>\<rparr>)"
  | r rs e where "c = From_backend" "records (backend t) = r # rs" "DecodeMessage cd r = Inl e"
      "t' = emit [Log_decode_failed e] (t\<lparr>backend := (backend t)\<lparr>records := rs\<rparr>\<rparr>)"
  | r rs m where "c = From_backend" "records (backend t) = r # rs" "DecodeMessage cd r = Inr m"
      "t' = deliver now (length (messages t))
              (t\<lparr>backend := (backend t)\<lparr>records := rs\<rparr>, messages := messages t @ [m]\<rparr>)"
  using assms
  by (cases c)
     (auto simp: MessagePump_iter_def chan_recv_def backend_ReadChan_def alloc_def
           split: list.splits sum.splits)

lemma GetChannel_cases [case_names existing new]:
  obtains
    c where "map_of (channelMap t) cn = Some c"
      "GetChannel cn t =
         (c, if messagePumpStarter t then t
             else emit [Go_MessagePump] (t\<lparr>messagePumpStarter := True, pump := Spawned\<rparr>))"
  | "map_of (channelMap t) cn = None"
      "GetChannel cn t =
         (length (channels t),
          (if messagePumpStarter t then emit [Log_new_channel (name t) cn]
           else emit [Log_new_channel (name t) cn, Go_MessagePump] \<circ>
                (\<lambda>t. t\<lparr>messagePumpStarter := True, pump := Spawned\<rparr>))
            (t\<lparr>channels := channels t @
                   [NewChannel (name t) cn (memQueueSize t) (dataPath t) (maxBytesPerFile t)],
               channelMap := channelMap t @ [(cn, length (channels t))]\<rparr>))"
  by (cases "map_of (channelMap t) cn")
     (auto simp: GetChannel_def alloc_def Let_def emit_def)

lemma GetChannel_fields [simp]:
  "name (snd (GetChannel cn t)) = name t"
  "backend (snd (GetChannel cn t)) = backend t"
  "incomingMessageChan (snd (GetChannel cn t)) = incomingMessageChan t"
  "memoryMsgChan (snd (GetChannel cn t)) = memoryMsgChan t"
  "memQueueSize (snd (GetChannel cn t)) = memQueueSize t"
  "dataPath (snd (GetChannel cn t)) = dataPath t"
  "maxBytesPerFile (snd (GetChannel cn t)) = maxBytesPerFile t"
  "messages (snd (GetChannel cn t)) = messages t"
  "router (snd (GetChannel cn t)) = router t"
  "observers (snd (GetChannel cn t)) = observers t"
  "tasks (snd (GetChannel cn t)) = tasks t"
  "panicked (snd (GetChannel cn t)) = panicked t"
  "messagePumpStarter (snd (GetChannel cn t))"
  "pump (snd (GetChannel cn t)) = (if messagePumpStarter t then pump t else Spawned)"
  by (rule GetChannel_cases [of t cn]; simp add: emit_def)+


lemma Close_eq:
  "Close cf bf t =
     (bf, emit [Backend_Close]
            ((close_channels cf (channelMap t)
                (notify_Post (topic_close t) (emit [Log_closing (name t)] t)))
             \<lparr>backend := (backend t)\<lparr>q_closed := True\<rparr>\<rparr>))"
proof -
  have tc: "topic_close (emit [Log_closing (name t)] t) = topic_close t"
    by (simp add: topic_close_def)
  show ?thesis
    unfolding Close_def Let_def tc backend_Close_def
    by (cases bf) simp_all
qed

lemma topic_close_take_signal [simp]: "topic_close (take_signal r t) = topic_close t"
  by (simp add: topic_close_def)

lemma take_signal_loops:
  "router (take_signal r t) = (if r = Router_exitChan then Returned else router t)"
  "pump (take_signal r t) = (if r = Pump_exitChan then Returned else pump t)"
  "observers (take_signal r t) = filter (\<lambda>x. x \<noteq> (topic_close t, r)) (observers t)"
  by (cases r; simp add: take_signal_def Router_exit_def MessagePump_exit_def
        notify_Ignore_def removeAll_filter_not_eq eq_commute)+

lemma fold_take_signal_router:
  "router (fold take_signal rs t) = (if Router_exitChan \<in> set rs then Returned else router t)"
  by (induction rs arbitrary: t) (simp_all add: take_signal_loops)

lemma fold_take_signal_pump:
  "pump (fold take_signal rs t) = (if Pump_exitChan \<in> set rs then Returned else pump t)"
  by (induction rs arbitrary: t) (simp_all add: take_signal_loops)

lemma fold_take_signal_observers:
  "observers (fold take_signal rs t) =
     filter (\<lambda>(e, r). \<not> (e = topic_close t \<and> r \<in> set rs)) (observers t)"
proof (induction rs arbitrary: t)
  case Nil
  show ?case by simp
next
  case (Cons r rs)
  show ?case
    by (auto simp: Cons.IH take_signal_loops(3) intro!: filter_cong)
qed

lemmas fold_take_signal_loops =
  fold_take_signal_router fold_take_signal_pump fold_take_signal_observers

lemma notify_Post_loops:
  "router (notify_Post (topic_close t) t) =
     (if (topic_close t, Router_exitChan) \<in> set (observers t) then Returned else router t)"
  "pump (notify_Post (topic_close t) t) =
     (if (topic_close t, Pump_exitChan) \<in> set (observers t) then Returned else pump t)"
  "observers (notify_Post (topic_close t) t) =
     filter (\<lambda>(e, r). e \<noteq> topic_close t) (observers t)"
proof -
  let ?rs = "map snd (filter (\<lambda>(e, r). e = topic_close t) (observers t))"
  have mem: "r \<in> set ?rs \<longleftrightarrow> (topic_close t, r) \<in> set (observers t)" for r
    by force
  have tc: "topic_close (emit es t) = topic_close t" for es
    by (simp add: topic_close_def)
  show "router (notify_Post (topic_close t) t) =
     (if (topic_close t, Router_exitChan) \<in> set (observers t) then Returned else router t)"
    unfolding notify_Post_def fold_take_signal_loops mem by simp
  show "pump (notify_Post (topic_close t) t) =
     (if (topic_close t, Pump_exitChan) \<in> set (observers t) then Returned else pump t)"
    unfolding notify_Post_def fold_take_signal_loops mem by simp
  show "observers (notify_Post (topic_close t) t) =
     filter (\<lambda>(e, r). e \<noteq> topic_close t) (observers t)"
    unfolding notify_Post_def fold_take_signal_loops mem tc
    by (auto intro!: filter_cong)
qed

lemma Close_fields [simp]:
  "name (snd (Close cf bf t)) = name t"
  "channelMap (snd (Close cf bf t)) = channelMap t"
  "incomingMessageChan (snd (Close cf bf t)) = incomingMessageChan t"
  "memoryMsgChan (snd (Close cf bf t)) = memoryMsgChan t"
  "messagePumpStarter (snd (Close cf bf t)) = messagePumpStarter t"
  "memQueueSize (snd (Close cf bf t)) = memQueueSize t"
  "dataPath (snd (Close cf bf t)) = dataPath t"
  "maxBytesPerFile (snd (Close cf bf t)) = maxBytesPerFile t"
  "messages (snd (Close cf bf t)) = messages t"
  "tasks (snd (Close cf bf t)) = tasks t"
  "records (backend (snd (Close cf bf t))) = records (backend t)"
  by (simp_all add: Close_eq)

lemma Close_loops:
  "router (snd (Close cf bf t)) =
     (if (topic_close t, Router_exitChan) \<in> set (observers t) then Returned else router t)"
  "pump (snd (Close cf bf t)) =
     (if (topic_close t, Pump_exitChan) \<in> set (observers t) then Returned else pump t)"
  "observers (snd (Close cf bf t)) = filter (\<lambda>(e, r). e \<noteq> topic_close t) (observers t)"
proof -
  let ?t1 = "emit [Log_closing (name t)] t"
  have tc: "topic_close ?t1 = topic_close t" by (simp add: topic_close_def)
  show "router (snd (Close cf bf t)) =
     (if (topic_close t, Router_exitChan) \<in> set (observers t) then Returned else router t)"
    using notify_Post_loops(1) [of ?t1] by (simp add: Close_eq tc)
  show "pump (snd (Close cf bf t)) =
     (if (topic_close t, Pump_exitChan) \<in> set (observers t) then Returned else pump t)"
    using notify_Post_loops(2) [of ?t1] by (simp add: Close_eq tc)
  show "observers (snd (Close cf bf t)) = filter (\<lambda>(e, r). e \<noteq> topic_close t) (observers t)"
    using notify_Post_loops(3) [of ?t1] by (simp add: Close_eq tc)
qed

subsection \<open>What NewTopic does with maxBytesPerFile\<close>

lemma close_channel_map:
  assumes "\<And>ch. g (ch\<lparr>c_closed := True\<rparr>) = g ch" and "close_channel cf c t = Some t'"
  shows "map g (channels t') = map g (channels t)"
proof -
  from assms(2) obtain ch where "deref (channels t) c = Some ch"
    by (auto simp: close_channel_def split: option.splits)
  then have c: "c < length (channels t)" and ch: "ch = channels t ! c"
    by (auto simp: deref_def split: if_splits)
  from assms(2) c have "channels t' = (channels t)[c := (channels t ! c)\<lparr>c_closed := True\<rparr>]"
    using close_channel_effects [OF c, of cf] by auto
  then show ?thesis
    by (simp add: map_update assms(1) list_update_same_conv c)
qed

lemma close_channels_map:
  assumes "\<And>ch. g (ch\<lparr>c_closed := True\<rparr>) = g ch"
  shows "map g (channels (close_channels cf cs t)) = map g (channels t)"
proof (induction cs arbitrary: t)
  case Nil
  show ?case by simp
next
  case (Cons a cs)
  obtain cn c where a: "a = (cn, c)" by (cases a)
  show ?case
    using Cons.IH close_channel_map [of g cf c t, OF assms]
    by (simp add: a split: option.splits)
qed

lemma run_task_map:
  assumes "\<And>ch p. g (ch\<lparr>inbox := p\<rparr>) = g ch"
  shows "map g (channels (run_task i t)) = map g (channels t)"
proof (cases "tasks t ! i")
  case (Pair c p)
  show ?thesis
  proof (cases "deref (channels t) c")
    case None
    then show ?thesis by (simp add: run_task_def Pair)
  next
    case (Some ch)
    then have "c < length (channels t)" "ch = channels t ! c"
      by (auto simp: deref_def split: if_splits)
    then show ?thesis
      by (simp add: run_task_def Pair deref_def Channel_PutMessage_def map_update assms
            list_update_same_conv)
  qed
qed

lemma GetChannel_channels:
  "channels (snd (GetChannel cn t)) = channels t \<or>
   channels (snd (GetChannel cn t)) =
     channels t @ [NewChannel (name t) cn (memQueueSize t) (dataPath t) (maxBytesPerFile t)]"
  by (rule GetChannel_cases [of t cn]; simp add: emit_def)

lemma Router_iter_frame:
  assumes "Router_iter cd parked pf t = Some t'"
  shows "name t' = name t" "channelMap t' = channelMap t" "messagePumpStarter t' = messagePumpStarter t"
    "memQueueSize t' = memQueueSize t" "dataPath t' = dataPath t"
    "maxBytesPerFile t' = maxBytesPerFile t" "messages t' = messages t" "channels t' = channels t"
    "router t' = router t" "pump t' = pump t" "observers t' = observers t" "tasks t' = tasks t"
    "cap (incomingMessageChan t') = cap (incomingMessageChan t)"
    "cap (memoryMsgChan t') = cap (memoryMsgChan t)"
    "q_maxBytesPerFile (backend t') = q_maxBytesPerFile (backend t)"
  using assms by (cases rule: Router_iter_cases; simp)+

lemma MessagePump_iter_frame:
  assumes "MessagePump_iter cd c now t = Some t'"
  shows "name t' = name t" "channelMap t' = channelMap t" "messagePumpStarter t' = messagePumpStarter t"
    "memQueueSize t' = memQueueSize t" "dataPath t' = dataPath t"
    "maxBytesPerFile t' = maxBytesPerFile t" "channels t' = channels t"
    "router t' = router t" "pump t' = pump t" "observers t' = observers t"
    "incomingMessageChan t' = incomingMessageChan t"
    "cap (memoryMsgChan t') = cap (memoryMsgChan t)"
    "q_maxBytesPerFile (backend t') = q_maxBytesPerFile (backend t)"
  using assms by (cases rule: MessagePump_iter_cases; simp)+

lemma start_fields [simp]:
  "channels (Router_start t) = channels t" "maxBytesPerFile (Router_start t) = maxBytesPerFile t"
  "backend (Router_start t) = backend t"
  "channels (MessagePump_start t) = channels t" "maxBytesPerFile (MessagePump_start t) = maxBytesPerFile t"
  "backend (MessagePump_start t) = backend t"
  by (simp_all add: Router_start_def MessagePump_start_def notify_Observe_def)

lemma Close_channels_map:
  assumes "\<And>ch. g (ch\<lparr>c_closed := True\<rparr>) = g ch"
  shows "map g (channels (snd (Close cf bf t))) = map g (channels t)"
  using close_channels_map [of g, OF assms] by (simp add: Close_eq)

lemma Close_backend_fields [simp]:
  "q_name (backend (snd (Close cf bf t))) = q_name (backend t)"
  "q_dataPath (backend (snd (Close cf bf t))) = q_dataPath (backend t)"
  "q_maxBytesPerFile (backend (snd (Close cf bf t))) = q_maxBytesPerFile (backend t)"
  "q_closed (backend (snd (Close cf bf t)))"
  by (simp_all add: Close_eq)

lemma map_eq_all:
  assumes "map g xs = map g ys" and "\<forall>y \<in> set ys. g y = v"
  shows "\<forall>x \<in> set xs. g x = v"
proof
  fix x assume "x \<in> set xs"
  then have "g x \<in> set (map g xs)" by simp
  then have "g x \<in> set (map g ys)" by (simp only: assms(1))
  with assms(2) show "g x = v" by auto
qed

lemma maxBytes_inv_step:
  assumes "maxBytes_inv mb t" and "step cd ev t = Some t'"
  shows "maxBytes_inv mb t'"
  using assms(2)
proof (cases rule: step_cases)
  case (NewMessage mid body now)
  with assms(1) show ?thesis by (simp add: maxBytes_inv_def)
next
  case (PutMessage msg)
  with assms(1) show ?thesis by (simp add: maxBytes_inv_def)
next
  case (GetChannel cn)
  with assms(1) GetChannel_channels [of cn t] show ?thesis
    by (auto simp: maxBytes_inv_def NewChannel_def)
next
  case (Close cf bf)
  have "map c_maxBytesPerFile (channels t') = map c_maxBytesPerFile (channels t)"
    unfolding Close by (rule Close_channels_map) simp
  from map_eq_all [OF this, of 0] assms(1)
  have "\<forall>ch \<in> set (channels t'). c_maxBytesPerFile ch = 0"
    by (simp add: maxBytes_inv_def)
  with assms(1) show ?thesis
    unfolding Close by (simp add: maxBytes_inv_def)
next
  case Router_start
  with assms(1) show ?thesis by (simp add: maxBytes_inv_def)
next
  case (Router parked pf)
  with assms(1) Router_iter_frame [OF Router(5)] show ?thesis by (simp add: maxBytes_inv_def)
next
  case Pump_start
  with assms(1) show ?thesis by (simp add: maxBytes_inv_def)
next
  case (Pump c now)
  with assms(1) MessagePump_iter_frame [OF Pump(4)] show ?thesis by (simp add: maxBytes_inv_def)
next
  case (Task i)
  have "map c_maxBytesPerFile (channels t') = map c_maxBytesPerFile (channels t)"
    unfolding Task by (rule run_task_map) simp
  from map_eq_all [OF this, of 0] assms(1)
  have "\<forall>ch \<in> set (channels t'). c_maxBytesPerFile ch = 0"
    by (simp add: maxBytes_inv_def)
  with assms(1) show ?thesis
    unfolding Task by (simp add: maxBytes_inv_def)
qed

text \<open>
  C9. \<open>NewTopic\<close> hands its \<open>maxBytesPerFile\<close> to the disk queue and leaves the field of
  the Topic at zero; no step changes either. So in every state that a run from \<open>NewTopic\<close>
  reaches, every Channel object, each of them made by \<open>GetChannel\<close>, has been constructed
  with a \<open>maxBytesPerFile\<close> of 0, and so is the one that a further \<open>GetChannel\<close> makes,
  whatever value \<open>NewTopic\<close> was called with.
\<close>

theorem maxBytesPerFile_not_stored:
  assumes "NewTopic tn q path mb = Inr t0" and "run cd evs t0 = Some t"
  shows "maxBytesPerFile t0 = 0 \<and> q_maxBytesPerFile (backend t0) = mb
       \<and> maxBytesPerFile t = 0 \<and> q_maxBytesPerFile (backend t) = mb
       \<and> (\<forall>ch \<in> set (channels t). c_maxBytesPerFile ch = 0)
       \<and> (\<forall>ch \<in> set (channels (snd (GetChannel cn t))). c_maxBytesPerFile ch = 0)"
proof -
  from assms(1) have 0: "maxBytes_inv mb t0"
    by (auto simp: NewTopic_def maxBytes_inv_def NewDiskQueue_def split: if_splits)
  have t: "maxBytes_inv mb t"
    by (rule run_invariant [where P = "maxBytes_inv mb", OF maxBytes_inv_step 0 assms(2)])
  have "\<forall>ch \<in> set (channels (snd (GetChannel cn t))). c_maxBytesPerFile ch = 0"
    using t GetChannel_channels [of cn t] by (auto simp: maxBytes_inv_def NewChannel_def)
  with 0 t show ?thesis by (auto simp: maxBytes_inv_def)
qed

theorem maxBytesPerFile_not_stored_witness:
  "NewTopic ''orders'' 2 ''/data'' 1024 = Inr orders
   \<and> run demo_codec orders_ab_events orders = Some orders_ab
   \<and> maxBytesPerFile orders_ab = 0 \<and> q_maxBytesPerFile (backend orders_ab) = 1024
   \<and> map c_maxBytesPerFile (channels orders_ab) = [0, 0]
   \<and> map c_maxBytesPerFile (channels (snd (GetChannel ''c'' orders_ab))) = [0, 0, 0]"
  using maxBytesPerFile_not_stored [where tn = "''orders''" and q = 2 and path = "''/data''"
      and mb = 1024 and ?t0.0 = orders and cd = demo_codec and evs = orders_ab_events
      and t = orders_ab and cn = "''c''"]
  by (simp add: NewTopic_orders orders_ab_reached)
     (simp add: orders_ab_eval GetChannel_def NewChannel_def alloc_def emit_def Let_def)


subsection \<open>GetChannel\<close>

lemma copy_to_trace:
  "copy_to now msg c t = Some t' \<Longrightarrow> trace t' = trace t @ [Go_Channel_PutMessage c (length (messages t))]"
  by (auto simp: copy_to_def NewMessage_def alloc_def Let_def split: option.splits)

lemma fan_out_trace_frame:
  assumes "\<And>tr c p. g (tr @ [Go_Channel_PutMessage c p]) = g tr"
  shows "g (trace (fan_out now msg cs t)) = g (trace t)"
proof (induction cs arbitrary: t)
  case Nil
  show ?case by simp
next
  case (Cons a cs)
  obtain cn c where a: "a = (cn, c)" by (cases a)
  show ?case
    using Cons.IH copy_to_trace [of now msg c t]
    by (auto simp: a assms split: option.splits)
qed

lemma close_channel_trace:
  "close_channel cf c t = Some t' \<Longrightarrow>
   trace t' = trace t @ [Channel_Close_call c] \<or>
   (\<exists>n e. trace t' = (trace t @ [Channel_Close_call c]) @ [Log_channel_close_failed n e])"
  by (auto simp: close_channel_def Channel_Close_def Let_def split: option.splits)

lemma close_channels_trace_frame:
  assumes "\<And>tr c. g (tr @ [Channel_Close_call c]) = g tr"
    and "\<And>tr n e. g (tr @ [Log_channel_close_failed n e]) = g tr"
  shows "g (trace (close_channels cf cs t)) = g (trace t)"
proof (induction cs arbitrary: t)
  case Nil
  show ?case by simp
next
  case (Cons a cs)
  obtain cn c where a: "a = (cn, c)" by (cases a)
  show ?case
  proof (cases "close_channel cf c t")
    case None
    then show ?thesis by (simp add: a)
  next
    case (Some t')
    from close_channel_trace [OF Some] have "g (trace t') = g (trace t)"
      by (auto simp only: assms)
    with Cons.IH [of t'] Some show ?thesis by (simp add: a)
  qed
qed

lemma Close_trace_frame:
  assumes "\<And>tr c. g (tr @ [Channel_Close_call c]) = g tr"
    and "\<And>tr n e. g (tr @ [Log_channel_close_failed n e]) = g tr"
    and "\<And>tr. g (tr @ [Backend_Close]) = g tr"
    and "\<And>tr n. g (tr @ [Log_closing n]) = g tr"
    and "\<And>tr n. g (tr @ [Notify_Post n]) = g tr"
  shows "g (trace (snd (Close cf bf t))) = g (trace t)"
proof -
  have "g (trace t @ [Log_closing (name t), Notify_Post (topic_close t)])
        = g ((trace t @ [Log_closing (name t)]) @ [Notify_Post (topic_close t)])"
    by simp
  also have "\<dots> = g (trace t)" by (simp only: assms)
  finally show ?thesis
    by (simp add: Close_eq assms(3) close_channels_trace_frame [of g, OF assms(1,2)])
qed

lemma deliver_trace_frame:
  assumes "\<And>tr c p. g (tr @ [Go_Channel_PutMessage c p]) = g tr"
    and "\<And>tr n cm. g (tr @ [Log_channelMap n cm]) = g tr"
  shows "g (trace (deliver now msg t)) = g (trace t)"
  by (simp add: deliver_def fan_out_trace_frame [of g, OF assms(1)] assms(2))

lemma step_pump_starts:
  assumes "step cd ev t = Some t'"
  shows "count_list (trace t') Go_MessagePump =
           count_list (trace t) Go_MessagePump + (if is_GetChannel ev \<and> \<not> messagePumpStarter t then 1 else 0)
       \<and> (messagePumpStarter t' \<longleftrightarrow> messagePumpStarter t \<or> is_GetChannel ev)"
  using assms
proof (cases rule: step_cases)
  case (NewMessage mid body now)
  then show ?thesis by (simp add: is_GetChannel_def)
next
  case (PutMessage msg)
  then show ?thesis by (simp add: is_GetChannel_def)
next
  case (GetChannel cn)
  show ?thesis
    unfolding GetChannel
    by (rule GetChannel_cases [of t cn]) (simp_all add: is_GetChannel_def)
next
  case (Close cf bf)
  have "count_list (trace (snd (Close cf bf t))) Go_MessagePump = count_list (trace t) Go_MessagePump"
    by (rule Close_trace_frame [where g = "\<lambda>tr. count_list tr Go_MessagePump"]) simp_all
  with Close show ?thesis by (simp add: is_GetChannel_def)
next
  case Router_start
  then show ?thesis by (simp add: is_GetChannel_def Router_start_def notify_Observe_def)
next
  case (Router parked pf)
  from Router(5) have "count_list (trace t') Go_MessagePump = count_list (trace t) Go_MessagePump"
    by (cases rule: Router_iter_cases) simp_all
  with Router Router_iter_frame(3) [OF Router(5)] show ?thesis by (simp add: is_GetChannel_def)
next
  case Pump_start
  then show ?thesis by (simp add: is_GetChannel_def MessagePump_start_def notify_Observe_def)
next
  case (Pump c now)
  have d: "count_list (trace (deliver now msg u)) Go_MessagePump = count_list (trace u) Go_MessagePump"
    for msg u
    by (rule deliver_trace_frame [where g = "\<lambda>tr. count_list tr Go_MessagePump"]) simp_all
  from Pump(4) have "count_list (trace t') Go_MessagePump = count_list (trace t) Go_MessagePump"
    by (cases rule: MessagePump_iter_cases) (simp_all add: d)
  with Pump MessagePump_iter_frame(3) [OF Pump(4)] show ?thesis by (simp add: is_GetChannel_def)
next
  case (Task i)
  then show ?thesis by (simp add: is_GetChannel_def)
qed

lemma run_pump_starts:
  assumes "run cd evs t = Some t'"
  shows "count_list (trace t') Go_MessagePump =
           count_list (trace t) Go_MessagePump +
             (if (\<exists>ev \<in> set evs. is_GetChannel ev) \<and> \<not> messagePumpStarter t then 1 else 0)
       \<and> (messagePumpStarter t' \<longleftrightarrow> messagePumpStarter t \<or> (\<exists>ev \<in> set evs. is_GetChannel ev))"
  using assms
proof (induction evs arbitrary: t)
  case Nil
  then show ?case by simp
next
  case (Cons ev evs)
  then obtain t1 where s: "step cd ev t = Some t1" and r: "run cd evs t1 = Some t'"
    by (auto split: option.splits)
  from step_pump_starts [OF s] Cons.IH [OF r] show ?case by auto
qed

lemma GetChannel_channelMap:
  "channelMap (snd (GetChannel cn t)) = channelMap t \<or>
   map_of (channelMap t) cn = None \<and>
   channelMap (snd (GetChannel cn t)) = channelMap t @ [(cn, length (channels t))]"
  by (rule GetChannel_cases [of t cn]; simp add: emit_def)

lemma GetChannel_result:
  "map_of (channelMap (snd (GetChannel cn t))) cn = Some (fst (GetChannel cn t))"
  by (rule GetChannel_cases [of t cn]; simp add: emit_def map_add_def)

lemma step_keeps_channel:
  assumes "map_of (channelMap t) cn = Some c" and "step cd ev t = Some t'"
  shows "map_of (channelMap t') cn = Some c"
  using assms(2)
proof (cases rule: step_cases)
  case (GetChannel cn')
  with assms(1) GetChannel_channelMap [of cn' t] show ?thesis by auto
next
  case (Router parked pf)
  with assms(1) Router_iter_frame(2) [OF Router(5)] show ?thesis by simp
next
  case (Pump c' now)
  with assms(1) MessagePump_iter_frame(2) [OF Pump(4)] show ?thesis by simp
qed (use assms(1) in \<open>simp_all add: Router_start_def MessagePump_start_def notify_Observe_def\<close>)




subsection \<open>Shutdown\<close>

lemma loops_inv_cong:
  assumes "loops_inv t" and "name t' = name t" "observers t' = observers t" "router t' = router t"
    "pump t' = pump t" "messagePumpStarter t' = messagePumpStarter t"
    "cap (incomingMessageChan t') = cap (incomingMessageChan t)"
  shows "loops_inv t'"
  using assms by (simp add: loops_inv_def topic_close_def)

lemma loops_inv_Close:
  assumes "loops_inv t"
  shows "loops_inv (snd (Close cf bf t))"
proof -
  have tc: "topic_close (snd (Close cf bf t)) = topic_close t" by (simp add: topic_close_def)
  show ?thesis
    using assms by (auto simp: loops_inv_def tc Close_loops)
qed

lemma loops_inv_GetChannel:
  assumes "loops_inv t"
  shows "loops_inv (snd (GetChannel cn t))"
proof (cases "messagePumpStarter t")
  case True
  with assms show ?thesis by (simp add: loops_inv_def topic_close_def)
next
  case False
  with assms have "pump t = Not_spawned" by (simp add: loops_inv_def)
  with assms False show ?thesis by (simp add: loops_inv_def topic_close_def)
qed

lemma loops_inv_Router_start:
  assumes "loops_inv t" and "router t = Spawned"
  shows "loops_inv (Router_start t)"
proof -
  from assms have "(topic_close t, Router_exitChan) \<notin> set (observers t)"
    by (simp add: loops_inv_def)
  with assms show ?thesis
    by (simp add: loops_inv_def Router_start_def notify_Observe_def topic_close_def)
qed

lemma loops_inv_MessagePump_start:
  assumes "loops_inv t" and "pump t = Spawned"
  shows "loops_inv (MessagePump_start t)"
proof -
  from assms have "(topic_close t, Pump_exitChan) \<notin> set (observers t)"
    by (simp add: loops_inv_def)
  with assms show ?thesis
    by (simp add: loops_inv_def MessagePump_start_def notify_Observe_def topic_close_def)
qed

lemma loops_inv_step:
  assumes "loops_inv t" and "step cd ev t = Some t'"
  shows "loops_inv t'"
  using assms(2)
proof (cases rule: step_cases)
  case (NewMessage mid body now)
  show ?thesis unfolding NewMessage(3) by (rule loops_inv_cong [OF assms(1)]) simp_all
next
  case (PutMessage msg)
  show ?thesis unfolding PutMessage(5) by (rule loops_inv_cong [OF assms(1)]) simp_all
next
  case (GetChannel cn)
  show ?thesis unfolding GetChannel(3) using assms(1) by (rule loops_inv_GetChannel)
next
  case (Close cf bf)
  show ?thesis unfolding Close(3) using assms(1) by (rule loops_inv_Close)
next
  case Router_start
  show ?thesis unfolding Router_start(4) using assms(1) Router_start(3)
    by (rule loops_inv_Router_start)
next
  case (Router parked pf)
  show ?thesis
    by (rule loops_inv_cong [OF assms(1)]) (simp_all add: Router_iter_frame [OF Router(5)])
next
  case Pump_start
  show ?thesis unfolding Pump_start(4) using assms(1) Pump_start(3)
    by (rule loops_inv_MessagePump_start)
next
  case (Pump c now)
  show ?thesis
    by (rule loops_inv_cong [OF assms(1)]) (simp_all add: MessagePump_iter_frame [OF Pump(4)])
next
  case (Task i)
  show ?thesis unfolding Task(4) by (rule loops_inv_cong [OF assms(1)]) simp_all
qed

lemma loops_inv_NewTopic: "NewTopic tn q path mb = Inr t0 \<Longrightarrow> loops_inv t0"
  by (auto simp: NewTopic_def loops_inv_def make_chan_def split: if_splits)

lemma loops_inv_reachable:
  "NewTopic tn q path mb = Inr t0 \<Longrightarrow> run cd evs t0 = Some t \<Longrightarrow> loops_inv t"
  by (rule run_invariant [where P = loops_inv, OF loops_inv_step loops_inv_NewTopic])

lemma step_router_returned:
  assumes "router t = Returned" and "step cd ev t = Some t'"
  shows "router t' = Returned \<and> router_gone t t'"
  using assms(2)
proof (cases rule: step_cases)
  case (Close cf bf)
  with assms(1) show ?thesis by (simp add: Close_loops router_gone_def)
next
  case (Pump c now)
  from Pump(4) have "router_gone t t'"
    by (cases rule: MessagePump_iter_cases) (simp_all add: router_gone_def suffix_ConsI)
  with assms(1) MessagePump_iter_frame(8) [OF Pump(4)] show ?thesis by simp
qed (use assms(1) in \<open>simp_all add: router_gone_def MessagePump_start_def notify_Observe_def\<close>)

lemma run_router_returned:
  assumes "router t = Returned" and "run cd evs t = Some t'"
  shows "router t' = Returned \<and> router_gone t t'"
proof (rule run_relation [where P = "\<lambda>t. router t = Returned" and R = router_gone, OF _ _ _ assms])
  show "router_gone a c" if "router_gone a b" "router_gone b c" for a b c
    using that unfolding router_gone_def
    by (blast intro: prefix_order.trans suffix_order.trans)
  show "router_gone a a" for a by (simp add: router_gone_def)
  show "router u' = Returned \<and> router_gone u u'"
    if "router u = Returned" "step cd ev u = Some u'" for u ev u'
    using that by (rule step_router_returned)
qed

lemma step_pump_returned:
  assumes "pump t = Returned \<and> messagePumpStarter t" and "step cd ev t = Some t'"
  shows "(pump t' = Returned \<and> messagePumpStarter t') \<and> pump_gone t t'"
  using assms(2)
proof (cases rule: step_cases)
  case (GetChannel cn)
  have "sent_to c (trace (snd (GetChannel cn t))) = sent_to c (trace t)" for c
    using assms(1) by (cases rule: GetChannel_cases [of t cn]) simp_all
  with assms(1) GetChannel show ?thesis by (simp add: pump_gone_def)
next
  case (Close cf bf)
  have "sent_to c (trace (snd (Close cf bf t))) = sent_to c (trace t)" for c
    by (rule Close_trace_frame [where g = "sent_to c"]) simp_all
  with assms(1) Close show ?thesis by (simp add: Close_loops pump_gone_def)
next
  case (Router parked pf)
  from Router(5) have "pump_gone t t'"
    by (cases rule: Router_iter_cases) (simp_all add: pump_gone_def)
  with assms(1) Router_iter_frame(3,10) [OF Router(5)] show ?thesis by simp
qed (use assms(1) in \<open>simp_all add: pump_gone_def Router_start_def notify_Observe_def\<close>)

lemma run_pump_returned:
  assumes "pump t = Returned \<and> messagePumpStarter t" and "run cd evs t = Some t'"
  shows "(pump t' = Returned \<and> messagePumpStarter t') \<and> pump_gone t t'"
proof (rule run_relation [where P = "\<lambda>t. pump t = Returned \<and> messagePumpStarter t"
      and R = pump_gone, OF _ _ _ assms])
  show "pump_gone a c" if "pump_gone a b" "pump_gone b c" for a b c
    using that unfolding pump_gone_def
    by (auto intro: prefix_order.trans)
  show "pump_gone a a" for a by (simp add: pump_gone_def)
  show "(pump u' = Returned \<and> messagePumpStarter u') \<and> pump_gone u u'"
    if "pump u = Returned \<and> messagePumpStarter u" "step cd ev u = Some u'" for u ev u'
    using that by (rule step_pump_returned)
qed

text \<open>
  C8. The case of the shutdown signal in either loop removes the loop's \<open>exitChan\<close> from
  the registry and returns; the queues, the spawned goroutines and the trace are as
  before. \<open>Close\<close> hands the signal to each loop that is in its \<open>select\<close>. Once the Router
  has returned it stays returned and takes no message: what is in the ingest channel
  stays there, in front of whatever is submitted later. Once the pump has returned it
  stays returned: what is in the memory channel and in the backend stays there, and
  nothing more is sent to any channel.
\<close>

theorem shutdown_without_draining:
  "(router (Router_exit t) = Returned
      \<and> (topic_close t, Router_exitChan) \<notin> set (observers (Router_exit t))
      \<and> incomingMessageChan (Router_exit t) = incomingMessageChan t
      \<and> memoryMsgChan (Router_exit t) = memoryMsgChan t
      \<and> backend (Router_exit t) = backend t \<and> trace (Router_exit t) = trace t)
   \<and> (pump (MessagePump_exit t) = Returned
      \<and> (topic_close t, Pump_exitChan) \<notin> set (observers (MessagePump_exit t))
      \<and> memoryMsgChan (MessagePump_exit t) = memoryMsgChan t
      \<and> backend (MessagePump_exit t) = backend t
      \<and> tasks (MessagePump_exit t) = tasks t \<and> trace (MessagePump_exit t) = trace t)
   \<and> (NewTopic tn q path mb = Inr t0 \<and> run cd evs0 t0 = Some t \<longrightarrow>
        (router t = Looping \<longrightarrow> router (snd (Close cf bf t)) = Returned) \<and>
        (pump t = Looping \<longrightarrow> pump (snd (Close cf bf t)) = Returned))
   \<and> (router t = Returned \<and> run cd evs t = Some t' \<longrightarrow>
        router t' = Returned \<and>
        prefix (buf (incomingMessageChan t)) (buf (incomingMessageChan t')))
   \<and> (pump t = Returned \<and> messagePumpStarter t \<and> run cd evs t = Some t' \<longrightarrow>
        pump t' = Returned \<and>
        prefix (buf (memoryMsgChan t)) (buf (memoryMsgChan t')) \<and>
        prefix (records (backend t)) (records (backend t')) \<and>
        (\<forall>c. sent_to c (trace t') = sent_to c (trace t)))"
proof (intro conjI impI)
  assume "NewTopic tn q path mb = Inr t0 \<and> run cd evs0 t0 = Some t"
  then have inv: "loops_inv t" using loops_inv_reachable by blast
  show "router (snd (Close cf bf t)) = Returned" if "router t = Looping"
    using inv that by (simp add: Close_loops loops_inv_def)
  show "pump (snd (Close cf bf t)) = Returned" if "pump t = Looping"
    using inv that by (simp add: Close_loops loops_inv_def)
next
  assume a: "router t = Returned \<and> run cd evs t = Some t'"
  from run_router_returned [of t cd evs t'] a
  show "router t' = Returned" "prefix (buf (incomingMessageChan t)) (buf (incomingMessageChan t'))"
    by (simp_all add: router_gone_def)
next
  assume a: "pump t = Returned \<and> messagePumpStarter t \<and> run cd evs t = Some t'"
  from run_pump_returned [of t cd evs t'] a
  show "pump t' = Returned" "prefix (buf (memoryMsgChan t)) (buf (memoryMsgChan t'))"
    "prefix (records (backend t)) (records (backend t'))"
    "\<forall>c. sent_to c (trace t') = sent_to c (trace t)"
    by (simp_all add: pump_gone_def)
qed (simp_all add: Router_exit_def MessagePump_exit_def notify_Ignore_def)

theorem shutdown_without_draining_witness:
  "NewTopic ''orders'' 2 ''/data'' 1024 = Inr orders
   \<and> run demo_codec orders_ab_events orders = Some orders_ab
   \<and> router orders_ab = Looping \<and> pump orders_ab = Looping
   \<and> snd (Close (\<lambda>c. None) None orders_ab) = orders_closed
   \<and> router orders_closed = Returned \<and> pump orders_closed = Returned
   \<and> messagePumpStarter orders_closed
   \<and> observers orders_closed = []
   \<and> buf (incomingMessageChan orders_closed) = [2]
   \<and> buf (memoryMsgChan orders_closed) = [0, 1]
   \<and> step demo_codec (Router_ev False None) orders_closed = None
   \<and> step demo_codec (Pump_ev From_memory 5) orders_closed = None
   \<and> run demo_codec [PutMessage_ev 0, PutMessage_ev 1, PutMessage_ev 2, PutMessage_ev 0]
         orders_closed = Some orders_closed_full
   \<and> router orders_closed_full = Returned \<and> pump orders_closed_full = Returned
   \<and> buf (incomingMessageChan orders_closed_full) = [2, 0, 1, 2, 0]
   \<and> buf (memoryMsgChan orders_closed_full) = [0, 1]"
  using shutdown_without_draining [where tn = "''orders''" and q = 2 and path = "''/data''"
      and mb = 1024 and ?t0.0 = orders and cd = demo_codec and evs0 = orders_ab_events
      and t = orders_ab and cf = "\<lambda>c. None" and bf = None]
    shutdown_without_draining [where t = orders_closed and cd = demo_codec
      and evs = "[PutMessage_ev 0, PutMessage_ev 1, PutMessage_ev 2, PutMessage_ev 0]"
      and t' = orders_closed_full]
  by (simp add: NewTopic_orders orders_ab_reached orders_ab_fields Close_orders_ab
        orders_closed_eval orders_closed_full_eval step_def PutMessage_def chan_send_def)


text \<open>
  C10, amended. \<open>Close\<close> called while the Router is in its loop leaves the Router returned
  for good. Afterwards nothing is placed in the memory channel or in the backend queue (they
  can only lose entries at the front, to a pump that is still running), and nothing is taken
  from the ingest channel. \<open>PutMessage\<close> does not look at whether the topic is closed: it
  enqueues the message on the ingest channel while that has fewer than 5 entries, and blocks
  otherwise; as the ingest channel is never drained again, it then blocks for ever.
\<close>

theorem after_Close:
  assumes "NewTopic tn q path mb = Inr t0" and "run cd evs0 t0 = Some t"
    and "router t = Looping" and "run cd evs (snd (Close cf bf t)) = Some t'"
  shows "router t' = Returned
       \<and> suffix (buf (memoryMsgChan t')) (buf (memoryMsgChan t))
       \<and> suffix (records (backend t')) (records (backend t))
       \<and> prefix (buf (incomingMessageChan t)) (buf (incomingMessageChan t'))
       \<and> PutMessage msg t' =
           (if length (buf (incomingMessageChan t')) < 5
            then Some (t'\<lparr>incomingMessageChan :=
                           (incomingMessageChan t')\<lparr>buf := buf (incomingMessageChan t') @ [msg]\<rparr>\<rparr>)
            else None)"
proof -
  let ?tc = "snd (Close cf bf t)"
  have inv: "loops_inv t" using assms(1,2) by (rule loops_inv_reachable)
  then have r: "router ?tc = Returned" using assms(3) by (simp add: Close_loops loops_inv_def)
  from run_router_returned [OF r assms(4)]
  have 1: "router t' = Returned" and 2: "router_gone ?tc t'" by simp_all
  have c: "loops_inv ?tc" using inv by (rule loops_inv_Close)
  have "loops_inv t'"
  proof (rule run_invariant [where P = loops_inv])
    show "loops_inv u'" if "loops_inv u" "step cd ev u = Some u'" for u ev u'
      using that by (rule loops_inv_step)
    show "loops_inv ?tc" by (rule c)
    show "run cd evs ?tc = Some t'" by (rule assms(4))
  qed
  then have cap: "cap (incomingMessageChan t') = 5" by (simp add: loops_inv_def)
  from 1 2 cap show ?thesis
    by (simp add: router_gone_def PutMessage_def chan_send_def)
qed

theorem after_Close_witness:
  "NewTopic ''orders'' 2 ''/data'' 1024 = Inr orders
   \<and> run demo_codec orders_ab_events orders = Some orders_ab
   \<and> router orders_ab = Looping
   \<and> run demo_codec [PutMessage_ev 0, PutMessage_ev 1, PutMessage_ev 2, PutMessage_ev 0]
         (snd (Close (\<lambda>c. None) None orders_ab)) = Some orders_closed_full
   \<and> router orders_closed_full = Returned
   \<and> buf (memoryMsgChan orders_closed_full) = buf (memoryMsgChan orders_ab)
   \<and> records (backend orders_closed_full) = records (backend orders_ab)
   \<and> buf (incomingMessageChan orders_closed_full) = [2, 0, 1, 2, 0]
   \<and> PutMessage 1 orders_closed_full = None
   \<and> buf (incomingMessageChan (the (PutMessage 1 orders_closed))) = [2, 1]"
  using after_Close [where tn = "''orders''" and q = 2 and path = "''/data''"
      and mb = 1024 and ?t0.0 = orders and cd = demo_codec and evs0 = orders_ab_events
      and t = orders_ab and cf = "\<lambda>c. None" and bf = None
      and evs = "[PutMessage_ev 0, PutMessage_ev 1, PutMessage_ev 2, PutMessage_ev 0]"
      and t' = orders_closed_full and msg = 1]
  by (simp add: NewTopic_orders orders_ab_reached orders_ab_fields Close_orders_ab
        orders_closed_eval orders_closed_full_eval step_def PutMessage_def chan_send_def)

text \<open>
  C10 as it is written does not hold: with five messages waiting in the ingest channel of
  a closed topic, \<open>PutMessage\<close> enqueues nothing.
\<close>

theorem PutMessage_after_Close_counterexample:
  "router orders_closed_full = Returned
   \<and> q_closed (backend orders_closed_full)
   \<and> buf (incomingMessageChan orders_closed_full) = [2, 0, 1, 2, 0]
   \<and> PutMessage 1 orders_closed_full = None"
  by (simp add: orders_closed_full_eval orders_closed_eval PutMessage_def chan_send_def)


end
